theory Spec2Isabelle
  imports Complex_Main "HOL-Library.List_Lexorder" "HOL-Library.Char_ord"
begin

section \<open>JavaScript values used by PDFGenerate\<close>

text \<open>
  A JavaScript string is modelled as a \<^typ>\<open>string\<close>, one \<^typ>\<open>char\<close> per code unit,
  for code units in the range U+0000 .. U+00FF. A value that is a string, \<open>null\<close> or
  \<open>undefined\<close> is a \<^typ>\<open>string option\<close>; \<open>null\<close> and \<open>undefined\<close> are both \<open>None\<close>
  (the program only ever tests such values for truthiness or compares them with a string).
\<close>

text \<open>Truthiness of a string-or-null value: \<open>null\<close> and the empty string are falsy.\<close>

definition truthy :: "string option \<Rightarrow> bool" where
  "truthy v = (case v of None \<Rightarrow> False | Some s \<Rightarrow> s \<noteq> [])"

text \<open>\<open>a || b\<close> on string-or-null values.\<close>

definition js_or :: "string option \<Rightarrow> string option \<Rightarrow> string option" where
  "js_or a b = (if truthy a then a else b)"

text \<open>
  \<open>String.prototype.toLowerCase\<close> on one code unit below U+0100: the ASCII capitals and
  the Latin-1 capitals U+00C0 .. U+00DE (without the multiplication sign U+00D7) move up
  by 32, every other code unit is unchanged.
\<close>

definition toLowerCase_char :: "char \<Rightarrow> char" where
  "toLowerCase_char c =
     (let n = (of_char c :: nat)
      in if (65 \<le> n \<and> n \<le> 90) \<or> (192 \<le> n \<and> n \<le> 222 \<and> n \<noteq> 215)
         then char_of (n + 32) else c)"

definition toLowerCase :: "string \<Rightarrow> string" where
  "toLowerCase s = map toLowerCase_char s"

text \<open>The complement of the character class \<open>[^a-z0-9]\<close>.\<close>

definition is_lower_alnum :: "char \<Rightarrow> bool" where
  "is_lower_alnum c =
     (let n = (of_char c :: nat) in (97 \<le> n \<and> n \<le> 122) \<or> (48 \<le> n \<and> n \<le> 57))"

definition not_lower_alnum :: "char \<Rightarrow> bool" where
  "not_lower_alnum c = (\<not> is_lower_alnum c)"

text \<open>
  The class \<open>\s\<close> of a JavaScript regular expression, which is also what \<open>trim\<close> strips,
  below U+0100: TAB, LF, VT, FF, CR, SPACE and the no-break space U+00A0.
\<close>

definition is_space :: "char \<Rightarrow> bool" where
  "is_space c = (let n = (of_char c :: nat) in (9 \<le> n \<and> n \<le> 13) \<or> n = 32 \<or> n = 160)"

text \<open>
  \<open>s.replace(/C+/g, " ")\<close> for a character class \<open>C\<close>: every maximal run of characters
  of the class becomes one space.
\<close>

function replace_runs :: "(char \<Rightarrow> bool) \<Rightarrow> string \<Rightarrow> string" where
  "replace_runs p [] = []"
| "replace_runs p (c # cs) =
     (if p c then CHR '' '' # replace_runs p (dropWhile p cs) else c # replace_runs p cs)"
  by pat_completeness auto
termination
  by (relation "measure (\<lambda>(p, s). length s)") (auto simp: length_dropWhile_le less_Suc_eq_le)

definition trim :: "string \<Rightarrow> string" where
  "trim s = rev (dropWhile is_space (rev (dropWhile is_space s)))"

subsection \<open>normalizeRoomName\<close>

text \<open>
  \<^verbatim>\<open>function normalizeRoomName(name) {
  if (!name) return null;
  return name.toLowerCase().replace(/[^a-z0-9]+/g, " ").replace(/\s+/g, " ").trim();
}\<close>
\<close>

definition normalizeRoomName :: "string option \<Rightarrow> string option" where
  "normalizeRoomName name =
     (case name of
        None \<Rightarrow> None
      | Some s \<Rightarrow>
          if s = [] then None
          else Some (trim (replace_runs is_space (replace_runs not_lower_alnum (toLowerCase s)))))"

section \<open>Detections and page groups\<close>

text \<open>An error object, with its \<open>message\<close>.\<close>

datatype js_error = JsError (message: string)

text \<open>
  What \<open>identifyRoomName\<close> resolves with: the cleaned heading \<open>roomName\<close>, the raw OCR text
  \<open>rawText\<close>, the OCR confidence and the path of the debug crop.
\<close>

record heading =
  roomName :: "string option"
  rawText :: "string option"
  confidence :: real
  previewPath :: "string option"

text \<open>
  An entry of \<open>roomDetections\<close>: the heading (\<open>...detection\<close>) extended with the
  normalized name, the page image and, for a failed detection, the error.
\<close>

record detection = heading +
  normalized :: "string option"
  pageImage :: string
  error :: "js_error option"

text \<open>
  A group. Its field \<open>roomName\<close> is \<open>group_roomName\<close> here, \<open>roomName\<close> being the field
  of a heading.
\<close>

record group =
  groupId :: nat
  pageIndices :: "nat list"
  pages :: "string list"
  group_roomName :: "string option"
  normalizedName :: "string option"

text \<open>
  \<open>roomDetections[i]?.f\<close>: the field of the entry, \<open>undefined\<close> (here \<open>None\<close>) when the
  index is out of range.
\<close>

definition field_at :: "detection list \<Rightarrow> (detection \<Rightarrow> string option) \<Rightarrow> nat \<Rightarrow> string option" where
  "field_at dets f i = (if i < length dets then f (dets ! i) else None)"

text \<open>
  \<open>pagesToProcess[i]\<close>. The program reads it for \<open>i < pagesToProcess.length\<close> only; the
  empty path stands for \<open>undefined\<close> elsewhere.
\<close>

definition page_at :: "string list \<Rightarrow> nat \<Rightarrow> string" where
  "page_at pgs i = (if i < length pgs then pgs ! i else [])"

subsection \<open>The grouping loop of pdfGenerate\<close>

text \<open>
  The inner \<open>while (cursor < pagesToProcess.length)\<close> loop: page \<open>cursor\<close> joins the group
  while its normalized name is truthy and strictly equal to the group's; the loop
  returns the cursor it stopped at and the extended group.
\<close>

function absorb :: "detection list \<Rightarrow> string list \<Rightarrow> string option \<Rightarrow> nat \<Rightarrow> group \<Rightarrow> nat \<times> group" where
  "absorb dets pgs nrm cursor g =
     (if cursor < length pgs then
        (if truthy (field_at dets normalized cursor) \<and> field_at dets normalized cursor = nrm
         then absorb dets pgs nrm (cursor + 1)
                (g\<lparr>pageIndices := pageIndices g @ [cursor], pages := pages g @ [page_at pgs cursor]\<rparr>)
         else (cursor, g))
      else (cursor, g))"
  by pat_completeness auto
termination
  by (relation "measure (\<lambda>(dets, pgs, nrm, cursor, g). length pgs - cursor)") auto

declare absorb.simps [simp del]

text \<open>The group opened at \<open>index\<close>, before any further page is absorbed.\<close>

definition open_group :: "detection list \<Rightarrow> string list \<Rightarrow> nat \<Rightarrow> nat \<Rightarrow> group" where
  "open_group dets pgs n index =
     \<lparr>groupId = n + 1,
      pageIndices = [index],
      pages = [page_at pgs index],
      group_roomName = js_or (js_or (field_at dets roomName index) (field_at dets rawText index)) None,
      normalizedName = field_at dets normalized index\<rparr>"

text \<open>One pass of the outer loop body: the closed group and the next value of \<open>index\<close>.\<close>

definition group_from :: "detection list \<Rightarrow> string list \<Rightarrow> nat \<Rightarrow> nat \<Rightarrow> nat \<times> group" where
  "group_from dets pgs n index =
     (let nrm = field_at dets normalized index;
          g = open_group dets pgs n index
      in if truthy nrm then absorb dets pgs nrm (index + 1) g else (index + 1, g))"

lemma absorb_cursor_ge: "cursor \<le> fst (absorb dets pgs nrm cursor g)"
proof (induction dets pgs nrm cursor g rule: absorb.induct)
  case (1 dets pgs nrm cursor g)
  show ?case
  proof (cases "cursor < length pgs \<and> truthy (field_at dets normalized cursor)
                \<and> field_at dets normalized cursor = nrm")
    case True
    then have "absorb dets pgs nrm cursor g =
               absorb dets pgs nrm (cursor + 1)
                 (g\<lparr>pageIndices := pageIndices g @ [cursor], pages := pages g @ [page_at pgs cursor]\<rparr>)"
      by (subst absorb.simps) auto
    moreover have "cursor + 1 \<le> fst (absorb dets pgs nrm (cursor + 1)
                 (g\<lparr>pageIndices := pageIndices g @ [cursor], pages := pages g @ [page_at pgs cursor]\<rparr>))"
      using "1.IH" True by blast
    ultimately show ?thesis by simp
  next
    case False
    then show ?thesis by (subst absorb.simps) auto
  qed
qed

lemma group_from_advances: "index < fst (group_from dets pgs n index)"
proof (cases "truthy (field_at dets normalized index)")
  case True
  have "index + 1 \<le> fst (absorb dets pgs (field_at dets normalized index) (index + 1)
                          (open_group dets pgs n index))"
    by (rule absorb_cursor_ge)
  with True show ?thesis by (simp add: group_from_def Let_def)
next
  case False
  then show ?thesis by (simp add: group_from_def Let_def)
qed

text \<open>
  The outer \<open>for (let index = 0; index < pagesToProcess.length; )\<close> loop, from the current
  \<open>index\<close> and the groups pushed so far.
\<close>

function grouping_loop :: "detection list \<Rightarrow> string list \<Rightarrow> nat \<Rightarrow> group list \<Rightarrow> group list" where
  "grouping_loop dets pgs index groups =
     (if index < length pgs then
        grouping_loop dets pgs (fst (group_from dets pgs (length groups) index))
          (groups @ [snd (group_from dets pgs (length groups) index)])
      else groups)"
  by pat_completeness auto
termination
proof (relation "measure (\<lambda>(dets, pgs, index, groups). length pgs - index)")
  show "wf (measure (\<lambda>(dets, pgs, index, groups). length pgs - index))" by simp
next
  fix dets :: "detection list" and pgs :: "string list" and index :: nat and groups :: "group list"
  assume "index < length pgs"
  moreover have "index < fst (group_from dets pgs (length groups) index)"
    by (rule group_from_advances)
  ultimately show "((dets, pgs, fst (group_from dets pgs (length groups) index),
                     groups @ [snd (group_from dets pgs (length groups) index)]),
                    (dets, pgs, index, groups))
                   \<in> measure (\<lambda>(dets, pgs, index, groups). length pgs - index)"
    by simp
qed

declare grouping_loop.simps [simp del]

definition make_groups :: "detection list \<Rightarrow> string list \<Rightarrow> group list" where
  "make_groups dets pgs = grouping_loop dets pgs 0 []"

section \<open>The worker pool\<close>

subsection \<open>The title overlaid on a render\<close>

text \<open>
  \<open>toUpperCase\<close> on a one-character string below U+0100. The sharp s becomes \<open>SS\<close>; the
  micro sign U+00B5 and y with diaeresis U+00FF have capitals above U+00FF, outside the
  code units modelled here, and are left as they are. The program upper-cases only the
  first letters of \<open>normalizedName\<close>, which \<open>normalizeRoomName\<close> builds from \<open>[a-z0-9 ]\<close>.
\<close>

definition toUpperCase_char :: "char \<Rightarrow> string" where
  "toUpperCase_char c =
     (let n = (of_char c :: nat)
      in if (97 \<le> n \<and> n \<le> 122) \<or> (224 \<le> n \<and> n \<le> 254 \<and> n \<noteq> 247) then [char_of (n - 32)]
         else if n = 223 then ''SS'' else [c])"

text \<open>\<open>s.split(" ")\<close> and \<open>parts.join(" ")\<close>.\<close>

fun split_space :: "string \<Rightarrow> string list" where
  "split_space [] = [[]]"
| "split_space (c # cs) =
     (if c = CHR '' '' then [] # split_space cs
      else (case split_space cs of [] \<Rightarrow> [[c]] | p # ps \<Rightarrow> (c # p) # ps))"

definition join_space :: "string list \<Rightarrow> string" where
  "join_space parts = (case parts of [] \<Rightarrow> [] | p # ps \<Rightarrow> foldl (\<lambda>acc q. acc @ '' '' @ q) p ps)"

text \<open>\<open>part.charAt(0).toUpperCase() + part.slice(1)\<close>\<close>

definition capitalize :: "string \<Rightarrow> string" where
  "capitalize part = (case part of [] \<Rightarrow> [] | c # cs \<Rightarrow> toUpperCase_char c @ cs)"

definition title_case :: "string \<Rightarrow> string" where
  "title_case s = join_space (map capitalize (split_space s))"

text \<open>\<open>v && v.trim()\<close>: a falsy \<open>v\<close> stays as it is.\<close>

definition and_trim :: "string option \<Rightarrow> string option" where
  "and_trim v = (case v of None \<Rightarrow> None | Some s \<Rightarrow> if s = [] then Some [] else Some (trim s))"

definition and_title_case :: "string option \<Rightarrow> string option" where
  "and_title_case v = (case v of None \<Rightarrow> None | Some s \<Rightarrow> if s = [] then Some [] else Some (title_case s))"

text \<open>
  \<open>headingSourceIndex\<close>, \<open>headingSource\<close> and \<open>titleText\<close> of the worker: the detection of
  the group's first page (an empty object when there is none), then the chain
  \<open>rawText.trim() || group.roomName.trim() || roomName.trim() || title-cased normalizedName || "Room"\<close>.
\<close>

definition headingSource_field :: "detection list \<Rightarrow> group \<Rightarrow> (detection \<Rightarrow> string option) \<Rightarrow> string option" where
  "headingSource_field dets g f = (case pageIndices g of [] \<Rightarrow> None | i # _ \<Rightarrow> field_at dets f i)"

definition titleText :: "detection list \<Rightarrow> group \<Rightarrow> string" where
  "titleText dets g =
     (case js_or (js_or (js_or (js_or
              (and_trim (headingSource_field dets g rawText))
              (and_trim (group_roomName g)))
              (and_trim (headingSource_field dets g roomName)))
              (and_title_case (normalizedName g)))
              (Some ''Room'')
      of None \<Rightarrow> ''Room'' | Some s \<Rightarrow> s)"

subsection \<open>Page results\<close>

text \<open>
  What \<open>describePageAndGenerate\<close> resolves with. The program only copies the
  description object into the page results; it is carried as a text.
\<close>

record gen_result =
  description :: string
  renderPath :: string

record page_result =
  pr_pageImage :: string
  groupedWith :: "string list"
  pr_groupId :: nat
  pr_roomName :: "string option"
  roomHeadingRaw :: "string option"
  pr_description :: "string option"
  pr_renderPath :: "string option"
  pr_error :: "js_error option"
  errorMessage :: "string option"

text \<open>\<open>group.pages.filter((_, idx) => idx !== localIndex)\<close>\<close>

definition companions :: "string list \<Rightarrow> nat \<Rightarrow> string list" where
  "companions ps localIndex = map snd (filter (\<lambda>(idx, p). idx \<noteq> localIndex) (enumerate 0 ps))"

definition success_page :: "detection list \<Rightarrow> string list \<Rightarrow> group \<Rightarrow> gen_result \<Rightarrow> nat \<Rightarrow> nat \<Rightarrow> page_result" where
  "success_page dets pgs g r pageIndex localIndex =
     \<lparr>pr_pageImage = page_at pgs pageIndex,
      groupedWith = companions (pages g) localIndex,
      pr_groupId = groupId g,
      pr_roomName = js_or (field_at dets roomName pageIndex) None,
      roomHeadingRaw = js_or (field_at dets rawText pageIndex) None,
      pr_description = Some (description r),
      pr_renderPath = Some (renderPath r),
      pr_error = None,
      errorMessage = None\<rparr>"

text \<open>\<open>error && (error.message || String(error))\<close> for an \<open>Error\<close> object.\<close>

definition error_text :: "js_error \<Rightarrow> string" where
  "error_text e = (if message e \<noteq> [] then message e else ''Error'')"

definition failure_page :: "detection list \<Rightarrow> string list \<Rightarrow> group \<Rightarrow> js_error \<Rightarrow> nat \<Rightarrow> nat \<Rightarrow> page_result" where
  "failure_page dets pgs g e pageIndex localIndex =
     \<lparr>pr_pageImage = page_at pgs pageIndex,
      groupedWith = companions (pages g) localIndex,
      pr_groupId = groupId g,
      pr_roomName = js_or (field_at dets roomName pageIndex) None,
      roomHeadingRaw = js_or (field_at dets rawText pageIndex) None,
      pr_description = None,
      pr_renderPath = None,
      pr_error = Some e,
      errorMessage = Some (error_text e)\<rparr>"

text \<open>
  \<open>processedPages[pageIndex] = v\<close> on an array with holes (\<open>None\<close>): an index past the end
  extends the array.
\<close>

definition js_assign :: "'a option list \<Rightarrow> nat \<Rightarrow> 'a \<Rightarrow> 'a option list" where
  "js_assign xs i v =
     (if i < length xs then xs[i := Some v]
      else xs @ replicate (i - length xs) None @ [Some v])"

text \<open>\<open>group.pageIndices.forEach((pageIndex, localIndex) => { processedPages[pageIndex] = ... })\<close>\<close>

definition write_pages :: "(nat \<Rightarrow> nat \<Rightarrow> page_result) \<Rightarrow> group \<Rightarrow> page_result option list \<Rightarrow> page_result option list" where
  "write_pages mk g pp =
     fold (\<lambda>(localIndex, pageIndex) acc. js_assign acc pageIndex (mk pageIndex localIndex))
          (enumerate 0 (pageIndices g)) pp"

subsection \<open>Collaborators and calls\<close>

text \<open>
  The collaborators of the program, each answering as a function of its arguments with
  a value or a thrown error, and the library functions on paths it leaves to Node.
\<close>

record env =
  path_resolve :: "string \<Rightarrow> string"
  cwd_resolve :: "string \<Rightarrow> string"
  path_extname :: "string \<Rightarrow> string"
  path_join :: "string \<Rightarrow> string \<Rightarrow> string"
  path_basename :: "string \<Rightarrow> string"
  pdfToPngs :: "string \<Rightarrow> string \<Rightarrow> int \<Rightarrow> js_error + string list"
  identifyRoomName :: "string \<Rightarrow> js_error + heading"
  describePageAndGenerate :: "group \<Rightarrow> js_error + gen_result"
  addTitleToImage :: "string \<Rightarrow> string \<Rightarrow> js_error + unit"
  fs_existsSync :: "string \<Rightarrow> bool"
  fs_readdir :: "string \<Rightarrow> js_error + string list"
  fs_unlink :: "string \<Rightarrow> js_error + unit"
  pdf_write :: "string list \<Rightarrow> string \<Rightarrow> js_error + unit"

text \<open>
  The calls to collaborators and the warnings, in the order the program makes them. A
  call carries the arguments that tell it apart (\<open>Describe\<close> the \<open>groupId\<close>), a warning
  the text printed before the error and the text of the error. \<open>WarnNothingToProcess\<close>
  is the warning of the early return,
  \<^verbatim>\<open>[PDFGenerate] Requested to skip ${skipPages} page(s), but only ${pageImages.length} were rendered. Nothing to process.\<close>,
  carrying the two numbers it prints.
\<close>

datatype event =
    Render string string
  | Identify string
  | Describe nat
  | AddTitle string string
  | Merge string string
  | Unlink string
  | Warn string string
  | WarnNothingToProcess int nat

subsection \<open>Workers\<close>

text \<open>
  A worker is suspended at one of its two \<open>await\<close>s, holding the index of the group it
  claimed, or it has left its loop, or it has thrown.
\<close>

datatype worker =
    AwaitDescribe nat
  | AwaitTitle nat gen_result
  | Finished
  | Rejected js_error

record pool_state =
  groupCursor :: nat
  processedPages :: "page_result option list"
  workers :: "worker list"
  calls :: "event list"

text \<open>
  The head of the worker's loop, up to its first \<open>await\<close>: read \<open>groupCursor\<close>, leave the
  loop when it is past the last group, otherwise advance it and call
  \<open>describePageAndGenerate\<close> for the claimed group.
\<close>

definition claim :: "group list \<Rightarrow> pool_state \<Rightarrow> worker \<times> pool_state" where
  "claim gs st =
     (let currentGroupIndex = groupCursor st
      in if currentGroupIndex \<ge> length gs then (Finished, st)
         else (AwaitDescribe currentGroupIndex,
               st\<lparr>groupCursor := currentGroupIndex + 1,
                  calls := calls st @ [Describe (groupId (gs ! currentGroupIndex))]\<rparr>))"

definition claim_as :: "group list \<Rightarrow> nat \<Rightarrow> pool_state \<Rightarrow> pool_state" where
  "claim_as gs w st = (case claim gs st of (ws, st') \<Rightarrow> st'\<lparr>workers := (workers st')[w := ws]\<rparr>)"

text \<open>
  The \<open>catch\<close> branch: every page of the group gets a failure result; then the worker
  rethrows unless \<open>continueOnError\<close> is set, in which case it goes round its loop.
\<close>

definition fail_group :: "bool \<Rightarrow> detection list \<Rightarrow> string list \<Rightarrow> group list \<Rightarrow> pool_state \<Rightarrow> nat \<Rightarrow> nat \<Rightarrow> js_error \<Rightarrow> pool_state" where
  "fail_group continueOnError dets pgs gs st w i e =
     (let st' = st\<lparr>processedPages := write_pages (failure_page dets pgs (gs ! i) e) (gs ! i) (processedPages st)\<rparr>
      in if \<not> continueOnError then st'\<lparr>workers := (workers st')[w := Rejected e]\<rparr>
         else claim_as gs w st')"

text \<open>
  Worker \<open>w\<close> resumes from its \<open>await\<close> and runs to its next one. After
  \<open>describePageAndGenerate\<close> it computes the title and calls \<open>addTitleToImage\<close>; after
  \<open>addTitleToImage\<close> it writes the success results of the group and goes round its loop.
  A rejected promise enters the \<open>catch\<close> branch. A worker that has ended does nothing.
\<close>

definition resume :: "env \<Rightarrow> bool \<Rightarrow> detection list \<Rightarrow> string list \<Rightarrow> group list \<Rightarrow> pool_state \<Rightarrow> nat \<Rightarrow> pool_state" where
  "resume en continueOnError dets pgs gs st w =
     (if w \<ge> length (workers st) then st
      else case workers st ! w of
        AwaitDescribe i \<Rightarrow>
          (case describePageAndGenerate en (gs ! i) of
             Inl e \<Rightarrow> fail_group continueOnError dets pgs gs st w i e
           | Inr r \<Rightarrow>
               st\<lparr>workers := (workers st)[w := AwaitTitle i r],
                  calls := calls st @ [AddTitle (renderPath r) (titleText dets (gs ! i))]\<rparr>)
      | AwaitTitle i r \<Rightarrow>
          (case addTitleToImage en (renderPath r) (titleText dets (gs ! i)) of
             Inl e \<Rightarrow> fail_group continueOnError dets pgs gs st w i e
           | Inr u \<Rightarrow>
               claim_as gs w
                 (st\<lparr>processedPages := write_pages (success_page dets pgs (gs ! i) r) (gs ! i) (processedPages st)\<rparr>))
      | Finished \<Rightarrow> st
      | Rejected e \<Rightarrow> st)"


text \<open>
  \<open>Array.from({ length: workerCount }, (_, index) => worker(index + 1))\<close>: the workers
  start one after the other, each running to its first \<open>await\<close>.
\<close>

definition start_workers :: "group list \<Rightarrow> nat \<Rightarrow> pool_state \<Rightarrow> pool_state" where
  "start_workers gs workerCount st =
     fold (\<lambda>w s. case claim gs s of (ws, s') \<Rightarrow> s'\<lparr>workers := workers s' @ [ws]\<rparr>) [0..<workerCount] st"

definition init_pool :: "string list \<Rightarrow> group list \<Rightarrow> nat \<Rightarrow> event list \<Rightarrow> pool_state" where
  "init_pool pgs gs workerCount tr =
     start_workers gs workerCount
       \<lparr>groupCursor = 0, processedPages = replicate (length pgs) None, workers = [], calls = tr\<rparr>"

text \<open>
  \<open>await Promise.all(...)\<close>: rejected with the error of the first worker that throws,
  fulfilled once every worker has left its loop, pending otherwise.
\<close>

datatype settlement = Fulfilled | RejectedWith js_error | StillPending

fun first_rejection :: "worker list \<Rightarrow> js_error option" where
  "first_rejection [] = None"
| "first_rejection (Rejected e # ws) = Some e"
| "first_rejection (_ # ws) = first_rejection ws"

definition settlement_of :: "pool_state \<Rightarrow> settlement" where
  "settlement_of st =
     (case first_rejection (workers st) of
        Some e \<Rightarrow> RejectedWith e
      | None \<Rightarrow> if list_all (\<lambda>w. w = Finished) (workers st) then Fulfilled else StillPending)"

text \<open>
  The pool as \<open>pdfGenerate\<close> sees it: workers resume in schedule order until the promise
  settles. A schedule that ends first leaves the promise pending.
\<close>

fun pool_run :: "env \<Rightarrow> bool \<Rightarrow> detection list \<Rightarrow> string list \<Rightarrow> group list \<Rightarrow> nat list \<Rightarrow> pool_state \<Rightarrow> settlement \<times> pool_state" where
  "pool_run en continueOnError dets pgs gs [] st = (settlement_of st, st)"
| "pool_run en continueOnError dets pgs gs (w # sched) st =
     (if settlement_of st \<noteq> StillPending then (settlement_of st, st)
      else pool_run en continueOnError dets pgs gs sched (resume en continueOnError dets pgs gs st w))"

section \<open>outputMerge\<close>

record merge_result =
  mr_outputPath :: string
  imageCount :: nat
  mr_imageFiles :: "string list"

definition imageExtensions :: "string list" where
  "imageExtensions = [''.png'', ''.jpg'', ''.jpeg'', ''.gif'', ''.bmp'', ''.webp'']"

text \<open>An option that is a path: resolved when truthy, else the default under the working directory.\<close>

definition resolve_or :: "env \<Rightarrow> string option \<Rightarrow> string \<Rightarrow> string" where
  "resolve_or en p dflt =
     (case p of None \<Rightarrow> cwd_resolve en dflt
      | Some s \<Rightarrow> if s = [] then cwd_resolve en dflt else path_resolve en s)"

text \<open>
  \<open>outputMerge\<close> of \<^verbatim>\<open>output-merge.js\<close>. It throws when the output directory is missing
  and when it holds no image file; \<open>sort()\<close> orders the paths by code units. Building the
  document with pdf-lib and writing it is the collaborator \<open>pdf_write\<close>, whose error is
  thrown on.
\<close>

definition outputMerge :: "env \<Rightarrow> string option \<Rightarrow> string option \<Rightarrow> js_error + merge_result" where
  "outputMerge en opt_outputDir opt_outputPath =
     (let outputDir = resolve_or en opt_outputDir ''generated'';
          outputPdfPath = resolve_or en opt_outputPath ''merged-output.pdf''
      in if \<not> fs_existsSync en outputDir
         then Inl (JsError (''Output directory does not exist: '' @ outputDir))
         else case fs_readdir en outputDir of
           Inl e \<Rightarrow> Inl e
         | Inr files \<Rightarrow>
             (let imageFiles =
                    sort (map (path_join en outputDir)
                           (filter (\<lambda>file. toLowerCase (path_extname en file) \<in> set imageExtensions) files))
              in if length imageFiles = 0
                 then Inl (JsError (''No image files found in output directory: '' @ outputDir))
                 else case pdf_write en imageFiles outputPdfPath of
                   Inl e \<Rightarrow> Inl e
                 | Inr u \<Rightarrow>
                     Inr \<lparr>mr_outputPath = outputPdfPath,
                          imageCount = length imageFiles,
                          mr_imageFiles = map (path_basename en) imageFiles\<rparr>))"

section \<open>pdfGenerate\<close>

text \<open>
  The options of \<open>pdfGenerate\<close>. \<open>skipPages\<close> is the number the caller passed, \<open>None\<close>
  when the caller passed nothing or a value that is not a finite number. Each of the
  other two numeric options is \<open>Some n\<close> when \<open>Number.isInteger\<close> accepts it and \<open>None\<close>
  otherwise; \<open>mergeOutput\<close> is \<open>Some False\<close> only when the caller passed \<open>false\<close>.
\<close>

record options =
  opt_pagesDir :: "string option"
  opt_outputDir :: "string option"
  opt_skipConversionPages :: "int option"
  opt_skipPages :: "real option"
  opt_continueOnError :: bool
  opt_concurrency :: "int option"
  opt_mergeOutput :: "bool option"
  opt_mergedOutputPath :: "string option"

text \<open>
  The object \<open>pdfGenerate\<close> returns. A field the returned object does not have, and a
  \<open>null\<close> \<open>mergedPdfPath\<close>, are \<open>None\<close>.
\<close>

record report =
  r_pagesDir :: string
  r_outputDir :: string
  r_pageImages :: "string list"
  r_processedPages :: "page_result option list"
  r_skipPages :: "int option"
  r_concurrency :: "nat option"
  r_groups :: "group list option"
  r_roomDetections :: "detection list option"
  r_mergedPdfPath :: "string option"

text \<open>How a call ends: it returns, it throws, or it is still waiting when the schedule ends.\<close>

datatype 'a outcome = Returned 'a | Threw js_error | Waiting

text \<open>\<open>xs.slice(start)\<close>: a negative start counts from the end.\<close>

definition js_slice :: "'a list \<Rightarrow> int \<Rightarrow> 'a list" where
  "js_slice xs start =
     (if start < 0 then drop (nat (max (int (length xs) + start) 0)) xs else drop (nat start) xs)"

subsection \<open>The detection pass\<close>

text \<open>
  The entry pushed for a page whose heading was identified: the heading, its normalized
  name \<open>normalizeRoomName(detection.roomName || detection.rawText)\<close> and the page.
\<close>

definition mk_detection :: "heading \<Rightarrow> string \<Rightarrow> detection" where
  "mk_detection h p =
     heading.extend h
       (detection.fields (normalizeRoomName (js_or (roomName h) (rawText h))) p None)"

text \<open>The entry pushed in the \<open>catch\<close> branch.\<close>

definition failed_detection :: "string \<Rightarrow> js_error \<Rightarrow> detection" where
  "failed_detection p e =
     \<lparr>roomName = None, rawText = None, confidence = 0, previewPath = None,
      normalized = None, pageImage = p, error = Some e\<rparr>"

text \<open>
  The sequential loop over \<open>pagesToProcess\<close>: a failed identification is recorded and,
  unless \<open>continueOnError\<close> is set, rethrown.
\<close>

fun detect_pages :: "env \<Rightarrow> bool \<Rightarrow> string list \<Rightarrow> detection list \<Rightarrow> event list
                     \<Rightarrow> (js_error + detection list) \<times> event list" where
  "detect_pages en continueOnError [] roomDetections tr = (Inr roomDetections, tr)"
| "detect_pages en continueOnError (pagePath # rest) roomDetections tr =
     (case identifyRoomName en pagePath of
        Inr h \<Rightarrow>
          detect_pages en continueOnError rest
            (roomDetections @ [mk_detection h pagePath]) (tr @ [Identify pagePath])
      | Inl e \<Rightarrow>
          (let roomDetections' = roomDetections @ [failed_detection pagePath e];
               tr' = tr @ [Identify pagePath,
                           Warn ''[PDFGenerate] Failed to identify room heading'' (error_text e)]
           in if \<not> continueOnError then (Inl e, tr')
              else detect_pages en continueOnError rest roomDetections' tr'))"

subsection \<open>Merging and cleaning up\<close>

text \<open>
  Deleting the PNG files of one directory: nothing when the directory is missing; a
  failing \<open>readdir\<close> or \<open>unlink\<close> throws.
\<close>

fun unlink_pngs :: "env \<Rightarrow> string \<Rightarrow> string list \<Rightarrow> event list \<Rightarrow> (js_error + unit) \<times> event list" where
  "unlink_pngs en dir [] tr = (Inr (), tr)"
| "unlink_pngs en dir (file # files) tr =
     (if toLowerCase (path_extname en file) = ''.png''
      then (case fs_unlink en (path_join en dir file) of
              Inl e \<Rightarrow> (Inl e, tr @ [Unlink (path_join en dir file)])
            | Inr u \<Rightarrow> unlink_pngs en dir files (tr @ [Unlink (path_join en dir file)]))
      else unlink_pngs en dir files tr)"

definition cleanup_dir :: "env \<Rightarrow> string \<Rightarrow> event list \<Rightarrow> (js_error + unit) \<times> event list" where
  "cleanup_dir en dir tr =
     (if fs_existsSync en dir
      then (case fs_readdir en dir of
              Inl e \<Rightarrow> (Inl e, tr)
            | Inr files \<Rightarrow> unlink_pngs en dir files tr)
      else (Inr (), tr))"

text \<open>The constant \<open>output_all\<close> of the module.\<close>

definition output_all :: bool where
  "output_all = False"

text \<open>The inner \<open>try\<close> of the cleanup: its error is warned about and dropped.\<close>

definition cleanup :: "env \<Rightarrow> string \<Rightarrow> string \<Rightarrow> event list \<Rightarrow> event list" where
  "cleanup en outputDir pagesDir tr =
     (case cleanup_dir en outputDir tr of
        (Inl e, tr') \<Rightarrow> tr' @ [Warn ''[PDFGenerate] Error during cleanup:'' (error_text e)]
      | (Inr u, tr') \<Rightarrow>
          (case cleanup_dir en pagesDir tr' of
             (Inl e, tr'') \<Rightarrow> tr'' @ [Warn ''[PDFGenerate] Error during cleanup:'' (error_text e)]
           | (Inr u', tr'') \<Rightarrow> tr''))"

text \<open>
  From \<open>const shouldMerge\<close> to the end of the \<open>if (shouldMerge)\<close> block: the merged path
  (\<open>null\<close> when merging is off or \<open>outputMerge\<close> threw) and the calls made.
\<close>

definition merge_step :: "env \<Rightarrow> options \<Rightarrow> string \<Rightarrow> string \<Rightarrow> event list \<Rightarrow> string option \<times> event list" where
  "merge_step en opts outputDir pagesDir tr =
     (let shouldMerge = (opt_mergeOutput opts \<noteq> Some False)
      in if shouldMerge then
           (let defaultMergedPath = (if truthy (opt_mergedOutputPath opts)
                                     then the (opt_mergedOutputPath opts)
                                     else cwd_resolve en ''merged-output.pdf'');
                tr1 = tr @ [Merge outputDir defaultMergedPath]
            in case outputMerge en (Some outputDir) (Some defaultMergedPath) of
                 Inr mergeResult \<Rightarrow>
                   (Some (mr_outputPath mergeResult),
                    if \<not> output_all then cleanup en outputDir pagesDir tr1 else tr1)
               | Inl e \<Rightarrow>
                   (None, tr1 @ [Warn ''[PDFGenerate] Failed to merge output images:'' (error_text e)]))
         else (None, tr))"

subsection \<open>The whole function\<close>

text \<open>\<open>Number.isInteger\<close> of a number, or of a value that is not a finite number.\<close>

definition Number_isInteger :: "real option \<Rightarrow> bool" where
  "Number_isInteger v = (case v of None \<Rightarrow> False | Some x \<Rightarrow> of_int \<lfloor>x\<rfloor> = x)"

text \<open>\<open>Number.isInteger(options.skipPages) ? options.skipPages : 0\<close>\<close>

definition effective_skipPages :: "options \<Rightarrow> int" where
  "effective_skipPages opts =
     (if Number_isInteger (opt_skipPages opts) then \<lfloor>the (opt_skipPages opts)\<rfloor> else 0)"

definition effective_concurrency :: "options \<Rightarrow> nat" where
  "effective_concurrency opts =
     (case opt_concurrency opts of Some n \<Rightarrow> if n > 0 then nat n else 2 | None \<Rightarrow> 2)"

text \<open>
  After the detection pass: group, run the pool under the schedule, then merge and
  return the report. A rejected \<open>Promise.all\<close> makes \<open>pdfGenerate\<close> throw.
\<close>

definition process_pages :: "env \<Rightarrow> options \<Rightarrow> nat list \<Rightarrow> string \<Rightarrow> string \<Rightarrow> string list \<Rightarrow> string list
                           \<Rightarrow> detection list \<Rightarrow> event list \<Rightarrow> report outcome \<times> event list" where
  "process_pages en opts sched pagesDir outputDir pageImages pagesToProcess roomDetections tr =
     (let groups = make_groups roomDetections pagesToProcess;
          workerCount = min (effective_concurrency opts) (length groups)
      in case pool_run en (opt_continueOnError opts) roomDetections pagesToProcess groups sched
                (init_pool pagesToProcess groups workerCount tr) of
           (RejectedWith e, st) \<Rightarrow> (Threw e, calls st)
         | (StillPending, st) \<Rightarrow> (Waiting, calls st)
         | (Fulfilled, st) \<Rightarrow>
             (case merge_step en opts outputDir pagesDir (calls st) of
                (mergedPdfPath, tr') \<Rightarrow>
                  (Returned
                     \<lparr>r_pagesDir = pagesDir,
                      r_outputDir = outputDir,
                      r_pageImages = pageImages,
                      r_processedPages = processedPages st,
                      r_skipPages = Some (effective_skipPages opts),
                      r_concurrency = Some workerCount,
                      r_groups = Some groups,
                      r_roomDetections = Some roomDetections,
                      r_mergedPdfPath = mergedPdfPath\<rparr>,
                   tr')))"

definition pdfGenerate :: "env \<Rightarrow> string option \<Rightarrow> options \<Rightarrow> nat list \<Rightarrow> report outcome \<times> event list" where
  "pdfGenerate en pdfPath opts sched =
     (if \<not> truthy pdfPath then (Threw (JsError ''pdfPath is required''), [])
      else
        (let resolvedPdf = path_resolve en (the pdfPath);
             pagesDir = resolve_or en (opt_pagesDir opts) ''pdf-pages'';
             outputDir = resolve_or en (opt_outputDir opts) ''generated'';
             skipConversionPages = (case opt_skipConversionPages opts of Some n \<Rightarrow> n | None \<Rightarrow> 4);
             skipPages = effective_skipPages opts;
             tr = [Render resolvedPdf pagesDir]
         in case pdfToPngs en resolvedPdf pagesDir skipConversionPages of
              Inl e \<Rightarrow> (Threw e, tr)
            | Inr pageImages \<Rightarrow>
                if skipPages \<ge> int (length pageImages)
                then (Returned
                        \<lparr>r_pagesDir = pagesDir, r_outputDir = outputDir, r_pageImages = pageImages,
                         r_processedPages = [], r_skipPages = None, r_concurrency = None,
                         r_groups = None, r_roomDetections = None, r_mergedPdfPath = None\<rparr>,
                      tr @ [WarnNothingToProcess skipPages (length pageImages)])
                else
                  (let pagesToProcess = js_slice pageImages skipPages
                   in if length pagesToProcess = 0
                      then (Returned
                              \<lparr>r_pagesDir = pagesDir, r_outputDir = outputDir, r_pageImages = pageImages,
                               r_processedPages = [], r_skipPages = Some skipPages, r_concurrency = Some 0,
                               r_groups = None, r_roomDetections = None, r_mergedPdfPath = None\<rparr>,
                            tr)
                      else case detect_pages en (opt_continueOnError opts) pagesToProcess [] tr of
                             (Inl e, tr') \<Rightarrow> (Threw e, tr')
                           | (Inr roomDetections, tr') \<Rightarrow>
                               process_pages en opts sched pagesDir outputDir pageImages
                                 pagesToProcess roomDetections tr')))"

section \<open>Notions used in the statements\<close>

subsection \<open>Groups\<close>

text \<open>
  A run \<open>[a, b)\<close> of pages as the loop closes it: when the normalized name of page \<open>a\<close> is
  truthy the run holds exactly the following pages with the same normalized name and
  stops at the first page that differs (or at the end); otherwise it is the page alone.
\<close>

definition run_ok :: "detection list \<Rightarrow> string list \<Rightarrow> nat \<Rightarrow> nat \<Rightarrow> bool" where
  "run_ok dets pgs a b =
     (a < b \<and> b \<le> length pgs \<and>
      (truthy (field_at dets normalized a) \<longrightarrow>
         (\<forall>j. a \<le> j \<and> j < b \<longrightarrow> field_at dets normalized j = field_at dets normalized a) \<and>
         (b < length pgs \<longrightarrow> field_at dets normalized b \<noteq> field_at dets normalized a)) \<and>
      (\<not> truthy (field_at dets normalized a) \<longrightarrow> b = Suc a))"

definition group_spans :: "detection list \<Rightarrow> string list \<Rightarrow> group \<Rightarrow> nat \<Rightarrow> nat \<Rightarrow> bool" where
  "group_spans dets pgs g a b =
     (run_ok dets pgs a b \<and> pageIndices g = [a..<b] \<and> pages g = map (page_at pgs) [a..<b] \<and>
      group_roomName g = js_or (js_or (field_at dets roomName a) (field_at dets rawText a)) None \<and>
      normalizedName g = field_at dets normalized a)"

text \<open>The first page index of a group.\<close>

definition first_index :: "group \<Rightarrow> nat" where
  "first_index g = hd (pageIndices g)"

text \<open>Pages \<open>i\<close> and \<open>j\<close> lie in one group.\<close>

definition same_group :: "group list \<Rightarrow> nat \<Rightarrow> nat \<Rightarrow> bool" where
  "same_group gs i j = list_ex (\<lambda>g. i \<in> set (pageIndices g) \<and> j \<in> set (pageIndices g)) gs"

text \<open>The page indices of the groups are \<open>0, .., n - 1\<close> in order.\<close>

definition covers :: "group list \<Rightarrow> nat \<Rightarrow> bool" where
  "covers gs n = (concat (map pageIndices gs) = [0..<n])"

subsection \<open>The normalizer\<close>

text \<open>
  A string is settled for a character class when each of its characters in the class is
  a space and no two characters of the class are neighbours: replacing the runs of the
  class by spaces leaves it as it is.
\<close>

fun settled :: "(char \<Rightarrow> bool) \<Rightarrow> string \<Rightarrow> bool" where
  "settled p [] = True"
| "settled p [c] = (p c \<longrightarrow> c = CHR '' '')"
| "settled p (c # d # cs) = ((p c \<longrightarrow> c = CHR '' '' \<and> \<not> p d) \<and> settled p (d # cs))"

text \<open>
  The normalizer in the words of the specification: lower-case, collapse each run of
  non-alphanumeric characters to one space, trim.
\<close>

definition spec_normalize :: "string \<Rightarrow> string" where
  "spec_normalize s = trim (replace_runs not_lower_alnum (toLowerCase s))"


subsection \<open>The pool\<close>

text \<open>
  What the pipeline of a group ends with: the error of \<open>describePageAndGenerate\<close> or of
  \<open>addTitleToImage\<close>, or the generated result.
\<close>

definition group_outcome :: "env \<Rightarrow> detection list \<Rightarrow> group \<Rightarrow> js_error + gen_result" where
  "group_outcome en dets g =
     (case describePageAndGenerate en g of
        Inl e \<Rightarrow> Inl e
      | Inr r \<Rightarrow>
          (case addTitleToImage en (renderPath r) (titleText dets g) of
             Inl e \<Rightarrow> Inl e
           | Inr u \<Rightarrow> Inr r))"

text \<open>The result a page of the group gets from that outcome.\<close>

definition page_of :: "env \<Rightarrow> detection list \<Rightarrow> string list \<Rightarrow> group \<Rightarrow> nat \<Rightarrow> nat \<Rightarrow> page_result" where
  "page_of en dets pgs g pageIndex localIndex =
     (case group_outcome en dets g of
        Inl e \<Rightarrow> failure_page dets pgs g e pageIndex localIndex
      | Inr r \<Rightarrow> success_page dets pgs g r pageIndex localIndex)"

text \<open>Every page of the group holds its result.\<close>

definition group_written :: "env \<Rightarrow> detection list \<Rightarrow> string list \<Rightarrow> group \<Rightarrow> page_result option list \<Rightarrow> bool" where
  "group_written en dets pgs g pp =
     (\<forall>li < length (pageIndices g).
        pp ! (pageIndices g ! li) = Some (page_of en dets pgs g (pageIndices g ! li) li))"

text \<open>The worker is suspended on group \<open>i\<close>.\<close>

definition holds :: "worker \<Rightarrow> nat \<Rightarrow> bool" where
  "holds wk i = (case wk of AwaitDescribe j \<Rightarrow> j = i | AwaitTitle j r \<Rightarrow> j = i | Finished \<Rightarrow> False | Rejected e \<Rightarrow> False)"

text \<open>
  The invariant of the pool: the result array keeps its length; the cursor stays in
  range; every claimed group is held by a suspended worker or has all its results
  written; a worker holds only a claimed group; a worker waiting for the title holds
  the result of its group's description; a worker has left the loop only after the last
  group was claimed; and no worker has thrown when \<open>continueOnError\<close> is set.
\<close>

definition pool_inv :: "env \<Rightarrow> bool \<Rightarrow> detection list \<Rightarrow> string list \<Rightarrow> group list \<Rightarrow> pool_state \<Rightarrow> bool" where
  "pool_inv en continueOnError dets pgs gs st =
     (length (processedPages st) = length pgs \<and>
      groupCursor st \<le> length gs \<and>
      (\<forall>i < groupCursor st.
         (\<exists>wk \<in> set (workers st). holds wk i) \<or> group_written en dets pgs (gs ! i) (processedPages st)) \<and>
      (\<forall>wk \<in> set (workers st). \<forall>i. holds wk i \<longrightarrow> i < groupCursor st) \<and>
      (\<forall>i r. AwaitTitle i r \<in> set (workers st) \<longrightarrow> describePageAndGenerate en (gs ! i) = Inr r) \<and>
      (Finished \<in> set (workers st) \<longrightarrow> groupCursor st = length gs) \<and>
      (continueOnError \<longrightarrow> (\<forall>e. Rejected e \<notin> set (workers st))))"

text \<open>The \<open>forEach\<close> of \<open>write_pages\<close> from local index \<open>n\<close> on.\<close>

definition write_from :: "(nat \<Rightarrow> nat \<Rightarrow> page_result) \<Rightarrow> nat \<Rightarrow> nat list \<Rightarrow> page_result option list \<Rightarrow> page_result option list" where
  "write_from mk n xs pp =
     fold (\<lambda>(localIndex, pageIndex) acc. js_assign acc pageIndex (mk pageIndex localIndex)) (enumerate n xs) pp"

text \<open>
  The worker-pool phase of \<open>pdfGenerate\<close> for given detections and pages: the groups, the
  worker count \<open>Math.min(concurrency, groups.length)\<close>, and the run under a schedule.
\<close>

definition pool_of :: "env \<Rightarrow> options \<Rightarrow> detection list \<Rightarrow> string list \<Rightarrow> nat list \<Rightarrow> event list
                      \<Rightarrow> settlement \<times> pool_state" where
  "pool_of en opts dets pgs sched tr =
     pool_run en (opt_continueOnError opts) dets pgs (make_groups dets pgs) sched
       (init_pool pgs (make_groups dets pgs)
          (min (effective_concurrency opts) (length (make_groups dets pgs))) tr)"




text \<open>The worker is suspended at an \<open>await\<close>.\<close>

definition pending :: "worker \<Rightarrow> bool" where
  "pending wk = (case wk of AwaitDescribe i \<Rightarrow> True | AwaitTitle i r \<Rightarrow> True | Finished \<Rightarrow> False | Rejected e \<Rightarrow> False)"

text \<open>The calls a worker still waits for in its current round.\<close>

definition weight :: "worker \<Rightarrow> nat" where
  "weight wk = (case wk of AwaitDescribe i \<Rightarrow> 2 | AwaitTitle i r \<Rightarrow> 1 | Finished \<Rightarrow> 0 | Rejected e \<Rightarrow> 0)"

text \<open>A bound on the number of resumptions the pool can still make.\<close>

definition remaining :: "group list \<Rightarrow> pool_state \<Rightarrow> nat" where
  "remaining gs st = 2 * (length gs - groupCursor st) + sum_list (map weight (workers st))"

text \<open>The first suspended worker.\<close>

definition next_worker :: "pool_state \<Rightarrow> nat" where
  "next_worker st = length (takeWhile (\<lambda>wk. \<not> pending wk) (workers st))"

text \<open>The schedule that resumes the first suspended worker, at most \<open>n\<close> times.\<close>

fun drain :: "env \<Rightarrow> bool \<Rightarrow> detection list \<Rightarrow> string list \<Rightarrow> group list \<Rightarrow> nat \<Rightarrow> pool_state \<Rightarrow> nat list" where
  "drain en coe dets pgs gs 0 st = []"
| "drain en coe dets pgs gs (Suc n) st =
     (if settlement_of st \<noteq> StillPending then []
      else next_worker st # drain en coe dets pgs gs n (resume en coe dets pgs gs st (next_worker st)))"

subsection \<open>The run of pdfGenerate\<close>

text \<open>The directories and the merged path \<open>pdfGenerate\<close> computes from its options.\<close>

definition pagesDir_of :: "env \<Rightarrow> options \<Rightarrow> string" where
  "pagesDir_of en opts = resolve_or en (opt_pagesDir opts) ''pdf-pages''"

definition outputDir_of :: "env \<Rightarrow> options \<Rightarrow> string" where
  "outputDir_of en opts = resolve_or en (opt_outputDir opts) ''generated''"

definition mergedPath_of :: "env \<Rightarrow> options \<Rightarrow> string" where
  "mergedPath_of en opts =
     (if truthy (opt_mergedOutputPath opts) then the (opt_mergedOutputPath opts)
      else cwd_resolve en ''merged-output.pdf'')"

text \<open>What the rendering of the document resolves with.\<close>

definition rendered :: "env \<Rightarrow> string option \<Rightarrow> options \<Rightarrow> js_error + string list" where
  "rendered en pdfPath opts =
     pdfToPngs en (path_resolve en (the pdfPath)) (pagesDir_of en opts)
       (case opt_skipConversionPages opts of Some n \<Rightarrow> n | None \<Rightarrow> 4)"


subsection \<open>Examples\<close>

text \<open>The five pages of an example: two kitchens, a bedroom and two pages without a heading.\<close>

definition scenario_pages :: "string list" where
  "scenario_pages = [''page-1.png'', ''page-2.png'', ''page-3.png'', ''page-4.png'', ''page-5.png'']"

definition scenario_detections :: "detection list" where
  "scenario_detections =
     [mk_detection \<lparr>roomName = Some ''Kitchen'', rawText = Some ''Kitchen'', confidence = 90, previewPath = None\<rparr> ''page-1.png'',
      mk_detection \<lparr>roomName = Some ''Kitchen'', rawText = Some ''KITCHEN'', confidence = 88, previewPath = None\<rparr> ''page-2.png'',
      mk_detection \<lparr>roomName = Some ''Bedroom'', rawText = Some ''Bedroom'', confidence = 70, previewPath = None\<rparr> ''page-3.png'',
      mk_detection \<lparr>roomName = None, rawText = None, confidence = 0, previewPath = None\<rparr> ''page-4.png'',
      mk_detection \<lparr>roomName = None, rawText = None, confidence = 0, previewPath = None\<rparr> ''page-5.png'']"

text \<open>
  An example environment for the five pages: every collaborator succeeds, the render of
  a group is named after its first page, and the output directory lists no file.
\<close>

definition scenario_heading :: "string \<Rightarrow> heading" where
  "scenario_heading p =
     (if p = ''page-1.png'' then \<lparr>roomName = Some ''Kitchen'', rawText = Some ''Kitchen'', confidence = 90, previewPath = None\<rparr>
      else if p = ''page-2.png'' then \<lparr>roomName = Some ''Kitchen'', rawText = Some ''KITCHEN'', confidence = 88, previewPath = None\<rparr>
      else if p = ''page-3.png'' then \<lparr>roomName = Some ''Bedroom'', rawText = Some ''Bedroom'', confidence = 70, previewPath = None\<rparr>
      else \<lparr>roomName = None, rawText = None, confidence = 0, previewPath = None\<rparr>)"

definition scenario_env :: env where
  "scenario_env =
     \<lparr>path_resolve = (\<lambda>p. p),
      cwd_resolve = (\<lambda>p. ''/work/'' @ p),
      path_extname = (\<lambda>f. if CHR ''.'' \<in> set f then CHR ''.'' # rev (takeWhile (\<lambda>c. c \<noteq> CHR ''.'') (rev f)) else []),
      path_join = (\<lambda>d f. d @ ''/'' @ f),
      path_basename = (\<lambda>f. rev (takeWhile (\<lambda>c. c \<noteq> CHR ''/'') (rev f))),
      pdfToPngs = (\<lambda>pdf dir skip. Inr scenario_pages),
      identifyRoomName = (\<lambda>p. Inr (scenario_heading p)),
      describePageAndGenerate =
        (\<lambda>g. Inr \<lparr>description = ''a room'', renderPath = ''/work/generated/'' @ hd (pages g) @ ''-render.png''\<rparr>),
      addTitleToImage = (\<lambda>r t. Inr ()),
      fs_existsSync = (\<lambda>d. True),
      fs_readdir = (\<lambda>d. Inr []),
      fs_unlink = (\<lambda>p. Inr ()),
      pdf_write = (\<lambda>fs out. Inr ())\<rparr>"

text \<open>The same environment with the pipeline of the group numbered \<open>k\<close> failing.\<close>

definition failing_env :: "nat \<Rightarrow> env" where
  "failing_env k =
     scenario_env\<lparr>describePageAndGenerate :=
       (\<lambda>g. if groupId g = k then Inl (JsError ''no image returned'')
            else describePageAndGenerate scenario_env g)\<rparr>"

text \<open>No option given: strict mode, two workers, merging on.\<close>

definition scenario_options :: options where
  "scenario_options =
     \<lparr>opt_pagesDir = None, opt_outputDir = None, opt_skipConversionPages = None,
      opt_skipPages = None, opt_continueOnError = False, opt_concurrency = None,
      opt_mergeOutput = None, opt_mergedOutputPath = None\<rparr>"

text \<open>The options of the example with \<open>continueOnError\<close> set.\<close>

definition continue_options :: options where
  "continue_options = scenario_options\<lparr>opt_continueOnError := True\<rparr>"

text \<open>A schedule that lets two workers finish the four groups of the example.\<close>

definition scenario_schedule :: "nat list" where
  "scenario_schedule = [0, 0, 1, 1, 0, 0, 1, 1]"

text \<open>
  Two pages whose OCR line is a rule of dashes: \<open>cleanHeading\<close> leaves an empty
  \<open>roomName\<close>, and the raw text normalizes to the empty string.
\<close>

definition dash_heading :: heading where
  "dash_heading = \<lparr>roomName = Some [], rawText = Some ''--'', confidence = 60, previewPath = None\<rparr>"

definition dash_pages :: "string list" where
  "dash_pages = [''page-1.png'', ''page-2.png'']"

definition dash_detections :: "detection list" where
  "dash_detections = [mk_detection dash_heading ''page-1.png'', mk_detection dash_heading ''page-2.png'']"

text \<open>A page with a cleaned heading that differs from its raw OCR text.\<close>

definition plan_heading :: heading where
  "plan_heading = \<lparr>roomName = Some ''Kitchen Plan'', rawText = Some ''KITCHEN PLAN 1'', confidence = 80, previewPath = None\<rparr>"

section \<open>Properties of normalizeRoomName\<close>

lemma dropWhile_replace_runs:
  "ys = [] \<or> \<not> p (hd ys) \<Longrightarrow> dropWhile p (replace_runs p ys) = replace_runs p ys"
  by (cases ys) auto

lemma dropWhile_head: "dropWhile p cs = [] \<or> \<not> p (hd (dropWhile p cs))"
  by (metis hd_dropWhile)

lemma replace_runs_head: "replace_runs p ys = [] \<or> \<not> p (hd (replace_runs p ys)) \<longleftrightarrow> ys = [] \<or> \<not> p (hd ys)"
  if "p (CHR '' '')"
  using that by (cases ys) auto

lemma settled_replace_runs: "p (CHR '' '') \<Longrightarrow> settled p (replace_runs p xs)"
proof (induction p xs rule: replace_runs.induct)
  case (1 p)
  then show ?case by simp
next
  case (2 p c cs)
  show ?case
  proof (cases "p c")
    case True
    let ?r = "replace_runs p (dropWhile p cs)"
    have s: "settled p ?r" using 2 True by simp
    have h: "?r = [] \<or> \<not> p (hd ?r)"
      using replace_runs_head[where p = p and ys = "dropWhile p cs", OF "2.prems"] dropWhile_head[of p cs] by blast
    show ?thesis
    proof (cases ?r)
      case Nil
      then show ?thesis using True by simp
    next
      case (Cons d ds)
      then show ?thesis using True s h by simp
    qed
  next
    case False
    let ?r = "replace_runs p cs"
    have s: "settled p ?r" using 2 False by simp
    show ?thesis
    proof (cases ?r)
      case Nil
      then show ?thesis using False by simp
    next
      case (Cons d ds)
      then show ?thesis using False s by simp
    qed
  qed
qed

lemma replace_runs_settled: "settled p xs \<Longrightarrow> replace_runs p xs = xs"
proof (induction p xs rule: settled.induct)
  case (1 p)
  then show ?case by simp
next
  case (2 p c)
  then show ?case by simp
next
  case (3 p c d cs)
  then show ?case by (cases "p c") auto
qed

lemma settled_mono: "(\<And>c. q c \<Longrightarrow> p c) \<Longrightarrow> settled p xs \<Longrightarrow> settled q xs"
  by (induction p xs rule: settled.induct) auto

lemma settled_tl: "settled p (c # cs) \<Longrightarrow> settled p cs"
  by (cases cs) auto

lemma settled_dropWhile: "settled p xs \<Longrightarrow> settled p (dropWhile q xs)"
  by (induction xs) (auto dest: settled_tl)

lemma settled_append1: "settled p (xs @ [c]) \<Longrightarrow> settled p xs"
  by (induction p xs rule: settled.induct) auto

lemma settled_butlast_dropWhile: "settled p xs \<Longrightarrow> settled p (rev (dropWhile q (rev xs)))"
proof (induction xs rule: rev_induct)
  case Nil
  then show ?case by simp
next
  case (snoc x xs)
  then show ?case by (auto dest: settled_append1)
qed

lemma settled_trim: "settled p xs \<Longrightarrow> settled p (trim xs)"
  unfolding trim_def by (intro settled_butlast_dropWhile settled_dropWhile)

lemma hd_trim_end:
  "rev (dropWhile P (rev ys)) \<noteq> [] \<Longrightarrow> hd (rev (dropWhile P (rev ys))) = hd ys"
proof (induction ys rule: rev_induct)
  case Nil
  then show ?case by simp
next
  case (snoc x xs)
  show ?case
  proof (cases "P x")
    case True
    then have e: "rev (dropWhile P (rev (xs @ [x]))) = rev (dropWhile P (rev xs))" by simp
    with snoc have "hd (rev (dropWhile P (rev xs))) = hd xs" by simp
    moreover have "xs \<noteq> []" using snoc.prems e by auto
    ultimately show ?thesis using e by simp
  next
    case False
    then show ?thesis by simp
  qed
qed

lemma trim_idem: "trim (trim xs) = trim xs"
proof -
  let ?ys = "dropWhile is_space xs"
  let ?zs = "rev (dropWhile is_space (rev ?ys))"
  have "?zs = [] \<or> \<not> is_space (hd ?zs)"
  proof -
    have "\<And>ys. ys = [] \<Longrightarrow> rev (dropWhile is_space (rev ys)) = ([] :: string)" by simp
    then have "?ys = [] \<longrightarrow> ?zs = []" by blast
    then show ?thesis
      using hd_trim_end[of is_space ?ys] dropWhile_head[of is_space xs] by metis
  qed
  moreover have "\<And>zs. zs = [] \<or> \<not> is_space (hd zs) \<Longrightarrow> dropWhile is_space zs = zs"
  proof -
    fix zs :: string
    assume "zs = [] \<or> \<not> is_space (hd zs)"
    then show "dropWhile is_space zs = zs" by (cases zs) auto
  qed
  ultimately have "dropWhile is_space ?zs = ?zs" by blast
  then show ?thesis by (simp add: trim_def del: dropWhile_eq_Nil_conv)
qed


lemma toLowerCase_char_fix: "is_lower_alnum c \<or> c = CHR '' '' \<Longrightarrow> toLowerCase_char c = c"
  by (auto simp: toLowerCase_char_def is_lower_alnum_def Let_def)

lemma settled_chars: "settled p xs \<Longrightarrow> c \<in> set xs \<Longrightarrow> p c \<Longrightarrow> c = CHR '' ''"
  by (induction p xs rule: settled.induct) auto

lemma space_not_alnum: "is_space c \<Longrightarrow> not_lower_alnum c"
  by (auto simp: is_space_def not_lower_alnum_def is_lower_alnum_def Let_def)

lemma not_alnum_space: "not_lower_alnum (CHR '' '')" "is_space (CHR '' '')"
  by (simp_all add: is_space_def not_lower_alnum_def is_lower_alnum_def)

lemma normalize_eq_spec: "s \<noteq> [] \<Longrightarrow> normalizeRoomName (Some s) = Some (spec_normalize s)"
proof -
  have "settled not_lower_alnum (replace_runs not_lower_alnum (toLowerCase s))"
    by (rule settled_replace_runs) (rule not_alnum_space)
  then have "settled is_space (replace_runs not_lower_alnum (toLowerCase s))"
    by (rule settled_mono[rotated]) (rule space_not_alnum)
  then have "replace_runs is_space (replace_runs not_lower_alnum (toLowerCase s)) =
             replace_runs not_lower_alnum (toLowerCase s)"
    by (rule replace_runs_settled)
  moreover assume "s \<noteq> []"
  ultimately show ?thesis by (simp add: normalizeRoomName_def spec_normalize_def)
qed

lemma spec_normalize_settled: "settled not_lower_alnum (spec_normalize s)"
  unfolding spec_normalize_def
  by (intro settled_trim settled_replace_runs not_alnum_space)

lemma spec_normalize_fix:
  "spec_normalize (spec_normalize s) = spec_normalize s"
proof -
  let ?y = "spec_normalize s"
  have st: "settled not_lower_alnum ?y" by (rule spec_normalize_settled)
  have "\<forall>c \<in> set ?y. toLowerCase_char c = c"
  proof
    fix c assume "c \<in> set ?y"
    then have "not_lower_alnum c \<longrightarrow> c = CHR '' ''" using settled_chars[OF st] by blast
    then show "toLowerCase_char c = c"
      using toLowerCase_char_fix[of c] by (auto simp: not_lower_alnum_def)
  qed
  then have l: "toLowerCase ?y = ?y" by (simp add: toLowerCase_def map_idI)
  have r: "replace_runs not_lower_alnum ?y = ?y" using st by (rule replace_runs_settled)
  have t: "trim ?y = ?y" unfolding spec_normalize_def by (rule trim_idem)
  show ?thesis
    by (subst (1) spec_normalize_def) (simp only: l r t)
qed

lemma renormalize_nonempty:
  "normalizeRoomName x = Some y \<Longrightarrow> y \<noteq> [] \<Longrightarrow> normalizeRoomName (Some y) = Some y"
proof -
  assume a: "normalizeRoomName x = Some y" and ne: "y \<noteq> []"
  then obtain s where x: "x = Some s" and s: "s \<noteq> []"
    by (auto simp: normalizeRoomName_def split: option.splits if_splits)
  then have "y = spec_normalize s" using a normalize_eq_spec[OF s] by simp
  then show ?thesis using normalize_eq_spec[OF ne] spec_normalize_fix[of s] by simp
qed


section \<open>Properties of the grouping loop\<close>

lemma absorb_result:
  "start \<le> cursor \<Longrightarrow> cursor \<le> length pgs \<Longrightarrow> truthy nrm \<Longrightarrow>
   \<forall>j. start \<le> j \<and> j < cursor \<longrightarrow> field_at dets normalized j = nrm \<Longrightarrow>
   pageIndices g = ps @ [start..<cursor] \<Longrightarrow> pages g = qs @ map (page_at pgs) [start..<cursor] \<Longrightarrow>
   \<exists>b g'. absorb dets pgs nrm cursor g = (b, g') \<and> cursor \<le> b \<and> b \<le> length pgs \<and>
     (\<forall>j. start \<le> j \<and> j < b \<longrightarrow> field_at dets normalized j = nrm) \<and>
     (b < length pgs \<longrightarrow> field_at dets normalized b \<noteq> nrm) \<and>
     pageIndices g' = ps @ [start..<b] \<and> pages g' = qs @ map (page_at pgs) [start..<b] \<and>
     group_roomName g' = group_roomName g \<and> normalizedName g' = normalizedName g \<and> groupId g' = groupId g"
proof (induction dets pgs nrm cursor g rule: absorb.induct)
  case (1 dets pgs nrm cursor g)
  show ?case
  proof (cases "cursor < length pgs \<and> truthy (field_at dets normalized cursor)
                \<and> field_at dets normalized cursor = nrm")
    case True
    let ?g = "g\<lparr>pageIndices := pageIndices g @ [cursor], pages := pages g @ [page_at pgs cursor]\<rparr>"
    have eq: "absorb dets pgs nrm cursor g = absorb dets pgs nrm (cursor + 1) ?g"
      using True by (subst absorb.simps) auto
    have a: "\<forall>j. start \<le> j \<and> j < cursor + 1 \<longrightarrow> field_at dets normalized j = nrm"
      using "1.prems"(4) True by (auto simp: less_Suc_eq)
    have b: "pageIndices ?g = ps @ [start..<cursor + 1]"
      using "1.prems"(1,5) by simp
    have c: "pages ?g = qs @ map (page_at pgs) [start..<cursor + 1]"
      using "1.prems"(1,6) by simp
    from True have t1: "cursor < length pgs" and t2: "truthy (field_at dets normalized cursor) \<and> field_at dets normalized cursor = nrm" by auto
    have "\<exists>b g'. absorb dets pgs nrm (cursor + 1) ?g = (b, g') \<and> cursor + 1 \<le> b \<and> b \<le> length pgs \<and>
     (\<forall>j. start \<le> j \<and> j < b \<longrightarrow> field_at dets normalized j = nrm) \<and>
     (b < length pgs \<longrightarrow> field_at dets normalized b \<noteq> nrm) \<and>
     pageIndices g' = ps @ [start..<b] \<and> pages g' = qs @ map (page_at pgs) [start..<b] \<and>
     group_roomName g' = group_roomName ?g \<and> normalizedName g' = normalizedName ?g \<and> groupId g' = groupId ?g"
      using "1.IH"[OF t1 t2 _ _ "1.prems"(3) a b c] "1.prems"(1) t1 by simp
    then show ?thesis unfolding eq by auto
  next
    case False
    then have eq: "absorb dets pgs nrm cursor g = (cursor, g)"
      by (subst absorb.simps) auto
    have "cursor < length pgs \<longrightarrow> field_at dets normalized cursor \<noteq> nrm"
      using False "1.prems"(3) by auto
    then show ?thesis unfolding eq using "1.prems" by auto
  qed
qed

lemma group_from_spans:
  assumes "a < length pgs"
  shows "\<exists>b g. group_from dets pgs n a = (b, g) \<and> group_spans dets pgs g a b \<and> groupId g = n + 1"
proof (cases "truthy (field_at dets normalized a)")
  case True
  let ?g = "open_group dets pgs n a"
  let ?n = "field_at dets normalized a"
  have one: "\<forall>j. a \<le> j \<and> j < a + 1 \<longrightarrow> field_at dets normalized j = ?n"
  proof (intro allI impI)
    fix j assume "a \<le> j \<and> j < a + 1"
    then have "j = a" by arith
    then show "field_at dets normalized j = ?n" by simp
  qed
  have pi: "pageIndices ?g = [] @ [a..<a + 1]" and pp: "pages ?g = [] @ map (page_at pgs) [a..<a + 1]"
    by (simp_all add: open_group_def)
  have le: "a \<le> a + 1" "a + 1 \<le> length pgs" using assms by simp_all
  obtain b g' where ab: "absorb dets pgs ?n (a + 1) ?g = (b, g')"
    and b1: "a + 1 \<le> b" and b2: "b \<le> length pgs"
    and b3: "\<forall>j. a \<le> j \<and> j < b \<longrightarrow> field_at dets normalized j = ?n"
    and b4: "b < length pgs \<longrightarrow> field_at dets normalized b \<noteq> ?n"
    and b5: "pageIndices g' = [] @ [a..<b]" and b6: "pages g' = [] @ map (page_at pgs) [a..<b]"
    and b7: "group_roomName g' = group_roomName ?g" and b8: "normalizedName g' = normalizedName ?g"
    and b9: "groupId g' = groupId ?g"
    using absorb_result[OF le True one pi pp] by blast
  have gf: "group_from dets pgs n a = (b, g')"
    using True ab by (simp add: group_from_def Let_def)
  have "a < b" using b1 by simp
  then have ro: "run_ok dets pgs a b"
    unfolding run_ok_def using True b2 b3 b4 by blast
  have "group_spans dets pgs g' a b"
    unfolding group_spans_def using ro b5 b6 b7 b8 by (simp add: open_group_def)
  moreover have "groupId g' = n + 1" using b9 by (simp add: open_group_def)
  ultimately show ?thesis using gf by blast
next
  case False
  have gf: "group_from dets pgs n a = (a + 1, open_group dets pgs n a)"
    using False by (simp add: group_from_def Let_def)
  have ro: "run_ok dets pgs a (a + 1)"
    unfolding run_ok_def using False assms by simp
  have "group_spans dets pgs (open_group dets pgs n a) a (a + 1)"
    unfolding group_spans_def using ro by (simp add: open_group_def)
  moreover have "groupId (open_group dets pgs n a) = n + 1" by (simp add: open_group_def)
  ultimately show ?thesis using gf by blast
qed

lemma grouping_loop_spans:
  "index \<le> length pgs \<Longrightarrow>
   \<exists>gs. grouping_loop dets pgs index groups = groups @ gs \<and>
        concat (map pageIndices gs) = [index..<length pgs] \<and>
        (\<forall>g \<in> set gs. \<exists>a b. index \<le> a \<and> group_spans dets pgs g a b) \<and>
        sorted_wrt (\<lambda>g h. first_index g < first_index h) gs \<and>
        map groupId gs = [length groups + 1 ..< length groups + 1 + length gs]"
proof (induction dets pgs index groups rule: grouping_loop.induct)
  case (1 dets pgs index groups)
  show ?case
  proof (cases "index < length pgs")
    case False
    then have "grouping_loop dets pgs index groups = groups"
      by (subst grouping_loop.simps) simp
    moreover have "index = length pgs" using False "1.prems" by simp
    ultimately show ?thesis by simp
  next
    case True
    obtain b g where bg: "group_from dets pgs (length groups) index = (b, g)"
      and sp: "group_spans dets pgs g index b" and gid: "groupId g = length groups + 1"
      using group_from_spans[OF True] by blast
    have ib: "index < b" and bl: "b \<le> length pgs" and pg: "pageIndices g = [index..<b]"
      using sp by (auto simp: group_spans_def run_ok_def)
    have eq: "grouping_loop dets pgs index groups = grouping_loop dets pgs b (groups @ [g])"
      using True bg by (subst grouping_loop.simps) simp
    obtain gs where gs: "grouping_loop dets pgs b (groups @ [g]) = (groups @ [g]) @ gs"
      and cc: "concat (map pageIndices gs) = [b..<length pgs]"
      and al: "\<forall>h \<in> set gs. \<exists>a c. b \<le> a \<and> group_spans dets pgs h a c"
      and so: "sorted_wrt (\<lambda>g h. first_index g < first_index h) gs"
      and ids: "map groupId gs = [length (groups @ [g]) + 1 ..< length (groups @ [g]) + 1 + length gs]"
      using "1.IH"[OF True, unfolded bg fst_conv snd_conv, OF bl] by blast
    have r: "grouping_loop dets pgs index groups = groups @ (g # gs)"
      using eq gs by simp
    have c1: "concat (map pageIndices (g # gs)) = [index..<length pgs]"
      using pg cc ib bl upt_add_eq_append[of index b "length pgs - b"] by simp
    have c2: "\<forall>h \<in> set (g # gs). \<exists>a c. index \<le> a \<and> group_spans dets pgs h a c"
    proof
      fix h assume "h \<in> set (g # gs)"
      then consider "h = g" | "h \<in> set gs" by auto
      then show "\<exists>a c. index \<le> a \<and> group_spans dets pgs h a c"
      proof cases
        case 1
        then show ?thesis using sp by blast
      next
        case 2
        then obtain a c where "b \<le> a" "group_spans dets pgs h a c" using al by blast
        moreover have "index \<le> a" using ib \<open>b \<le> a\<close> by simp
        ultimately show ?thesis by blast
      qed
    qed
    have fi: "first_index g = index" using pg ib by (simp add: first_index_def hd_upt)
    have "\<forall>h \<in> set gs. index < first_index h"
    proof
      fix h assume "h \<in> set gs"
      then obtain a c where "b \<le> a" "group_spans dets pgs h a c" using al by blast
      then have "first_index h = a" by (simp add: first_index_def group_spans_def run_ok_def)
      with \<open>b \<le> a\<close> ib show "index < first_index h" by simp
    qed
    then have c3: "sorted_wrt (\<lambda>g h. first_index g < first_index h) (g # gs)"
      using so fi by simp
    have c4: "map groupId (g # gs) = [length groups + 1 ..< length groups + 1 + length (g # gs)]"
    proof -
      have "[length groups + 1 ..< length groups + 1 + length (g # gs)] =
            (length groups + 1) # [Suc (length groups + 1) ..< length groups + 1 + length (g # gs)]"
        by (rule upt_conv_Cons) simp
      then show ?thesis using gid ids by simp
    qed
    from r c1 c2 c3 c4 show ?thesis by blast
  qed
qed


lemma make_groups_spans:
  "concat (map pageIndices (make_groups dets pgs)) = [0..<length pgs] \<and>
   (\<forall>g \<in> set (make_groups dets pgs). \<exists>a b. group_spans dets pgs g a b) \<and>
   sorted_wrt (\<lambda>g h. first_index g < first_index h) (make_groups dets pgs) \<and>
   map groupId (make_groups dets pgs) = [1 ..< 1 + length (make_groups dets pgs)]"
proof -
  obtain gs where gs: "grouping_loop dets pgs 0 [] = [] @ gs"
    and a: "concat (map pageIndices gs) = [0..<length pgs]"
    and b: "\<forall>g \<in> set gs. \<exists>a b. 0 \<le> a \<and> group_spans dets pgs g a b"
    and c: "sorted_wrt (\<lambda>g h. first_index g < first_index h) gs"
    and d: "map groupId gs = [length ([] :: group list) + 1 ..< length ([] :: group list) + 1 + length gs]"
    using grouping_loop_spans[of 0 pgs dets "[]"] by blast
  have "make_groups dets pgs = gs" using gs by (simp add: make_groups_def)
  moreover have "\<forall>g \<in> set gs. \<exists>a b. group_spans dets pgs g a b" using b by blast
  moreover have "map groupId gs = [1 ..< 1 + length gs]" using d by simp
  ultimately show ?thesis using a c by simp
qed

lemma scenario_groups:
  "make_groups scenario_detections scenario_pages =
     [\<lparr>groupId = 1, pageIndices = [0, 1], pages = [''page-1.png'', ''page-2.png''],
       group_roomName = Some ''Kitchen'', normalizedName = Some ''kitchen''\<rparr>,
      \<lparr>groupId = 2, pageIndices = [2], pages = [''page-3.png''],
       group_roomName = Some ''Bedroom'', normalizedName = Some ''bedroom''\<rparr>,
      \<lparr>groupId = 3, pageIndices = [3], pages = [''page-4.png''],
       group_roomName = None, normalizedName = None\<rparr>,
      \<lparr>groupId = 4, pageIndices = [4], pages = [''page-5.png''],
       group_roomName = None, normalizedName = None\<rparr>]"
  by code_simp

lemma group_of_page:
  assumes "i < length pgs"
  shows "\<exists>g a b. g \<in> set (make_groups dets pgs) \<and> group_spans dets pgs g a b \<and> a \<le> i \<and> i < b"
proof -
  have "i \<in> set (concat (map pageIndices (make_groups dets pgs)))"
    using assms make_groups_spans[of dets pgs] by simp
  then obtain g where g: "g \<in> set (make_groups dets pgs)" and i: "i \<in> set (pageIndices g)"
    by auto
  then obtain a b where sp: "group_spans dets pgs g a b"
    using make_groups_spans[of dets pgs] by blast
  then have "pageIndices g = [a..<b]" by (simp add: group_spans_def)
  with i have "a \<le> i \<and> i < b" by simp
  with g sp show ?thesis by blast
qed

lemma groups_disjoint:
  assumes g: "g \<in> set (make_groups dets pgs)" and h: "h \<in> set (make_groups dets pgs)"
    and i: "i \<in> set (pageIndices g)" "i \<in> set (pageIndices h)"
  shows "pageIndices g = pageIndices h"
proof (rule ccontr)
  assume ne: "pageIndices g \<noteq> pageIndices h"
  have "distinct (concat (map pageIndices (make_groups dets pgs)))"
    using make_groups_spans[of dets pgs] by simp
  then have "\<forall>ys zs. ys \<in> set (map pageIndices (make_groups dets pgs)) \<and>
                    zs \<in> set (map pageIndices (make_groups dets pgs)) \<and> ys \<noteq> zs
                    \<longrightarrow> set ys \<inter> set zs = {}"
    by (simp only: distinct_concat_iff) blast
  moreover have "pageIndices g \<in> set (map pageIndices (make_groups dets pgs))"
    and "pageIndices h \<in> set (map pageIndices (make_groups dets pgs))"
    using g h by simp_all
  ultimately have "set (pageIndices g) \<inter> set (pageIndices h) = {}" using ne by blast
  with i show False by blast
qed

lemma same_group_iff:
  "same_group gs i j \<longleftrightarrow> (\<exists>g \<in> set gs. i \<in> set (pageIndices g) \<and> j \<in> set (pageIndices g))"
  by (simp add: same_group_def list_ex_iff)

lemma adjacent_same_group:
  assumes "Suc i < length pgs"
  shows "same_group (make_groups dets pgs) i (Suc i) \<longleftrightarrow>
         truthy (field_at dets normalized i) \<and>
         field_at dets normalized i = field_at dets normalized (Suc i)"
proof -
  let ?N = "field_at dets normalized"
  have il: "i < length pgs" using assms by simp
  obtain g a b where g: "g \<in> set (make_groups dets pgs)" and sp: "group_spans dets pgs g a b"
    and ai: "a \<le> i" and ib: "i < b"
    using group_of_page[OF il] by blast
  have pg: "pageIndices g = [a..<b]" and ro: "run_ok dets pgs a b"
    using sp by (simp_all add: group_spans_def)
  have ig: "i \<in> set (pageIndices g)" using pg ai ib by simp
  show ?thesis
  proof
    assume "same_group (make_groups dets pgs) i (Suc i)"
    then obtain h where h: "h \<in> set (make_groups dets pgs)"
      and hi: "i \<in> set (pageIndices h)" and hs: "Suc i \<in> set (pageIndices h)"
      unfolding same_group_iff by blast
    have "pageIndices h = pageIndices g" using groups_disjoint[OF h g hi ig] .
    with hs pg have sb: "Suc i < b" by simp
    have ta: "truthy (?N a)"
    proof (rule ccontr)
      assume "\<not> truthy (?N a)"
      then have "b = Suc a" using ro by (simp add: run_ok_def)
      with ai sb show False by simp
    qed
    then have eq: "\<forall>j. a \<le> j \<and> j < b \<longrightarrow> ?N j = ?N a" using ro unfolding run_ok_def by blast
    have "?N i = ?N a" using eq ai ib by blast
    moreover have "?N (Suc i) = ?N a" using eq ai sb by (metis le_SucI)
    ultimately show "truthy (?N i) \<and> ?N i = ?N (Suc i)" using ta by simp
  next
    assume r: "truthy (?N i) \<and> ?N i = ?N (Suc i)"
    have ta: "truthy (?N a)"
    proof (rule ccontr)
      assume "\<not> truthy (?N a)"
      then have "b = Suc a" using ro by (simp add: run_ok_def)
      with ai ib have "i = a" by simp
      with r \<open>\<not> truthy (?N a)\<close> show False by simp
    qed
    then have eq: "\<forall>j. a \<le> j \<and> j < b \<longrightarrow> ?N j = ?N a"
      and stop: "b < length pgs \<longrightarrow> ?N b \<noteq> ?N a"
      using ro unfolding run_ok_def by blast+
    have ia: "?N i = ?N a" using eq ai ib by blast
    have "Suc i \<noteq> b"
    proof
      assume "Suc i = b"
      then have "?N b \<noteq> ?N a" using stop assms by simp
      moreover have "?N b = ?N a" using r ia \<open>Suc i = b\<close> by simp
      ultimately show False by simp
    qed
    then have "Suc i < b" using ib by simp
    then have "Suc i \<in> set (pageIndices g)" using pg ai by simp
    then show "same_group (make_groups dets pgs) i (Suc i)"
      unfolding same_group_iff using g ig by blast
  qed
qed

lemma falsy_singleton:
  assumes "i < length pgs" and "\<not> truthy (field_at dets normalized i)"
  shows "(\<exists>g \<in> set (make_groups dets pgs). pageIndices g = [i]) \<and>
         (\<forall>j. same_group (make_groups dets pgs) i j \<longrightarrow> j = i)"
proof -
  let ?N = "field_at dets normalized"
  obtain g a b where g: "g \<in> set (make_groups dets pgs)" and sp: "group_spans dets pgs g a b"
    and ai: "a \<le> i" and ib: "i < b"
    using group_of_page[OF assms(1)] by blast
  have pg: "pageIndices g = [a..<b]" and ro: "run_ok dets pgs a b"
    using sp by (simp_all add: group_spans_def)
  have "\<not> truthy (?N a)"
  proof
    assume ta: "truthy (?N a)"
    then have "\<forall>j. a \<le> j \<and> j < b \<longrightarrow> ?N j = ?N a" using ro unfolding run_ok_def by blast
    then have "?N i = ?N a" using ai ib by blast
    with ta assms(2) show False by simp
  qed
  then have "b = Suc a" using ro by (simp add: run_ok_def)
  with ai ib have "i = a" by simp
  with pg \<open>b = Suc a\<close> have one: "pageIndices g = [i]" by simp
  have "\<forall>j. same_group (make_groups dets pgs) i j \<longrightarrow> j = i"
  proof (intro allI impI)
    fix j assume "same_group (make_groups dets pgs) i j"
    then obtain h where h: "h \<in> set (make_groups dets pgs)"
      and hi: "i \<in> set (pageIndices h)" and hj: "j \<in> set (pageIndices h)"
      unfolding same_group_iff by blast
    have "pageIndices h = pageIndices g" using groups_disjoint[OF h g hi] one by simp
    with hj one show "j = i" by simp
  qed
  with g one show ?thesis by blast
qed

section \<open>Properties of the detection pass\<close>





section \<open>Properties of the labels\<close>

lemma group_label_fields:
  assumes "g \<in> set (make_groups dets pgs)"
  shows "group_roomName g =
           js_or (js_or (field_at dets roomName (first_index g)) (field_at dets rawText (first_index g))) None \<and>
         headingSource_field dets g rawText = field_at dets rawText (first_index g) \<and>
         headingSource_field dets g roomName = field_at dets roomName (first_index g) \<and>
         normalizedName g = field_at dets normalized (first_index g)"
proof -
  obtain a b where sp: "group_spans dets pgs g a b"
    using assms make_groups_spans[of dets pgs] by blast
  then have ab: "a < b" and pg: "pageIndices g = [a..<b]"
    by (simp_all add: group_spans_def run_ok_def)
  then have pc: "pageIndices g = a # [Suc a..<b]" by (simp add: upt_conv_Cons)
  then have fi: "first_index g = a" by (simp add: first_index_def)
  have hs: "\<And>f. headingSource_field dets g f = field_at dets f a"
    using pc by (simp add: headingSource_field_def)
  have "group_roomName g = js_or (js_or (field_at dets roomName a) (field_at dets rawText a)) None"
    and "normalizedName g = field_at dets normalized a"
    using sp by (simp_all add: group_spans_def)
  then show ?thesis using hs fi by simp
qed

section \<open>Properties of pdfGenerate\<close>

lemma pdfGenerate_processing:
  assumes "truthy pdfPath"
    and "pdfToPngs en (path_resolve en (the pdfPath)) (resolve_or en (opt_pagesDir opts) ''pdf-pages'')
           (case opt_skipConversionPages opts of Some n \<Rightarrow> n | None \<Rightarrow> 4) = Inr pageImages"
    and "\<not> effective_skipPages opts \<ge> int (length pageImages)"
    and "js_slice pageImages (effective_skipPages opts) \<noteq> []"
    and "detect_pages en (opt_continueOnError opts) (js_slice pageImages (effective_skipPages opts)) []
           [Render (path_resolve en (the pdfPath)) (resolve_or en (opt_pagesDir opts) ''pdf-pages'')]
         = (Inr roomDetections, tr)"
  shows "pdfGenerate en pdfPath opts sched =
           process_pages en opts sched (resolve_or en (opt_pagesDir opts) ''pdf-pages'')
             (resolve_or en (opt_outputDir opts) ''generated'') pageImages
             (js_slice pageImages (effective_skipPages opts)) roomDetections tr"
  using assms by (simp add: pdfGenerate_def Let_def)

lemma merge_step_failure:
  assumes "opt_mergeOutput opts \<noteq> Some False"
    and "outputMerge en (Some outputDir)
           (Some (if truthy (opt_mergedOutputPath opts) then the (opt_mergedOutputPath opts)
                  else cwd_resolve en ''merged-output.pdf'')) = Inl e"
  shows "merge_step en opts outputDir pagesDir tr =
           (None, tr @ [Merge outputDir (if truthy (opt_mergedOutputPath opts) then the (opt_mergedOutputPath opts)
                                        else cwd_resolve en ''merged-output.pdf''),
                        Warn ''[PDFGenerate] Failed to merge output images:'' (error_text e)])"
  using assms by (simp add: merge_step_def Let_def)

lemma outputMerge_empty_directory:
  assumes "fs_existsSync en (resolve_or en d ''generated'')"
    and "fs_readdir en (resolve_or en d ''generated'') = Inr []"
  shows "outputMerge en d p =
           Inl (JsError (''No image files found in output directory: '' @ resolve_or en d ''generated''))"
  using assms by (simp add: outputMerge_def Let_def)

lemma outputMerge_missing_directory:
  assumes "\<not> fs_existsSync en (resolve_or en d ''generated'')"
  shows "outputMerge en d p =
           Inl (JsError (''Output directory does not exist: '' @ resolve_or en d ''generated''))"
  using assms by (simp add: outputMerge_def Let_def)







section \<open>Properties of the worker pool\<close>

lemma js_assign_length: "i < length xs \<Longrightarrow> length (js_assign xs i v) = length xs"
  by (simp add: js_assign_def)

lemma js_assign_nth: "i < length xs \<Longrightarrow> js_assign xs i v ! q = (if q = i then Some v else xs ! q)"
  by (simp add: js_assign_def nth_list_update)

lemma write_from_Nil: "write_from mk n [] pp = pp"
  by (simp add: write_from_def)

lemma write_from_Cons: "write_from mk n (x # xs) pp = write_from mk (Suc n) xs (js_assign pp x (mk x n))"
  by (simp add: write_from_def)

lemma write_pages_from: "write_pages mk g pp = write_from mk 0 (pageIndices g) pp"
  by (simp add: write_pages_def write_from_def)

lemma write_from_length:
  "\<forall>p \<in> set xs. p < length pp \<Longrightarrow> length (write_from mk n xs pp) = length pp"
  by (induction xs arbitrary: n pp) (simp_all add: write_from_Nil write_from_Cons js_assign_length)

lemma write_from_other:
  "\<forall>p \<in> set xs. p < length pp \<Longrightarrow> q \<notin> set xs \<Longrightarrow> write_from mk n xs pp ! q = pp ! q"
  by (induction xs arbitrary: n pp) (simp_all add: write_from_Nil write_from_Cons js_assign_length js_assign_nth)

lemma write_from_nth:
  "\<forall>p \<in> set xs. p < length pp \<Longrightarrow> distinct xs \<Longrightarrow> li < length xs \<Longrightarrow>
   write_from mk n xs pp ! (xs ! li) = Some (mk (xs ! li) (n + li))"
proof (induction xs arbitrary: n pp li)
  case Nil
  then show ?case by simp
next
  case (Cons x xs)
  show ?case
  proof (cases li)
    case 0
    have "write_from mk (Suc n) xs (js_assign pp x (mk x n)) ! x = js_assign pp x (mk x n) ! x"
      using Cons.prems by (intro write_from_other) (simp_all add: js_assign_length)
    then show ?thesis using 0 Cons.prems by (simp add: write_from_Cons js_assign_nth)
  next
    case (Suc m)
    have "write_from mk (Suc n) xs (js_assign pp x (mk x n)) ! (xs ! m) = Some (mk (xs ! m) (Suc n + m))"
      using Cons.prems Suc by (intro Cons.IH) (simp_all add: js_assign_length)
    then show ?thesis using Suc by (simp add: write_from_Cons)
  qed
qed


lemma covers_make_groups: "covers (make_groups dets pgs) (length pgs)"
  using make_groups_spans[of dets pgs] by (simp add: covers_def)

lemma concat_nth_subset: "i < length xss \<Longrightarrow> set (xss ! i) \<subseteq> set (concat xss)"
proof -
  assume "i < length xss"
  then have "xss ! i \<in> set xss" by simp
  then show ?thesis by auto
qed

lemma distinct_concat_nth_disjoint:
  "distinct (concat xss) \<Longrightarrow> i < length xss \<Longrightarrow> j < length xss \<Longrightarrow> i \<noteq> j \<Longrightarrow>
   set (xss ! i) \<inter> set (xss ! j) = {}"
proof (induction xss arbitrary: i j)
  case Nil
  then show ?case by simp
next
  case (Cons x xs)
  from Cons.prems(1) have d: "distinct (concat xs)" and x: "set x \<inter> set (concat xs) = {}"
    by simp_all
  show ?case
  proof (cases i)
    case 0
    then obtain j' where j: "j = Suc j'" using Cons.prems(4) by (cases j) auto
    then have "set (xs ! j') \<subseteq> set (concat xs)" using Cons.prems(3) concat_nth_subset by simp
    with x 0 j show ?thesis by auto
  next
    case (Suc i')
    show ?thesis
    proof (cases j)
      case 0
      have "set (xs ! i') \<subseteq> set (concat xs)" using Cons.prems(2) Suc concat_nth_subset by simp
      with x 0 Suc show ?thesis by auto
    next
      case (Suc j')
      with \<open>i = Suc i'\<close> Cons.prems have "set (xs ! i') \<inter> set (xs ! j') = {}"
        by (intro Cons.IH[OF d]) simp_all
      with Suc \<open>i = Suc i'\<close> show ?thesis by simp
    qed
  qed
qed

lemma distinct_concat_nth: "distinct (concat xss) \<Longrightarrow> i < length xss \<Longrightarrow> distinct (xss ! i)"
  using nth_mem[of i xss] by (auto simp: distinct_concat_iff)

lemma covers_bound: "covers gs n \<Longrightarrow> i < length gs \<Longrightarrow> p \<in> set (pageIndices (gs ! i)) \<Longrightarrow> p < n"
proof -
  assume c: "covers gs n" and i: "i < length gs" and p: "p \<in> set (pageIndices (gs ! i))"
  have "gs ! i \<in> set gs" using i by simp
  then have "p \<in> set (concat (map pageIndices gs))" using p by auto
  then have "p \<in> set [0..<n]" using c unfolding covers_def by simp
  then show "p < n" by simp
qed

lemma covers_distinct: "covers gs n \<Longrightarrow> i < length gs \<Longrightarrow> distinct (pageIndices (gs ! i))"
  using distinct_concat_nth[of "map pageIndices gs" i] by (simp add: covers_def)

lemma covers_disjoint:
  "covers gs n \<Longrightarrow> i < length gs \<Longrightarrow> j < length gs \<Longrightarrow> i \<noteq> j \<Longrightarrow>
   set (pageIndices (gs ! i)) \<inter> set (pageIndices (gs ! j)) = {}"
  using distinct_concat_nth_disjoint[of "map pageIndices gs" i j] by (simp add: covers_def)

lemma covers_page:
  "covers gs n \<Longrightarrow> p < n \<Longrightarrow> \<exists>i li. i < length gs \<and> li < length (pageIndices (gs ! i)) \<and> pageIndices (gs ! i) ! li = p"
proof -
  assume c: "covers gs n" and p: "p < n"
  then have "p \<in> set (concat (map pageIndices gs))" by (simp add: covers_def)
  then obtain g where g: "g \<in> set gs" and pg: "p \<in> set (pageIndices g)" by auto
  then obtain i where "i < length gs" "gs ! i = g" by (auto simp: in_set_conv_nth)
  moreover obtain li where "li < length (pageIndices g)" "pageIndices g ! li = p"
    using pg by (auto simp: in_set_conv_nth)
  ultimately show ?thesis by blast
qed


lemma set_update_keep: "wk \<in> set ws \<Longrightarrow> wk \<noteq> ws ! w \<Longrightarrow> wk \<in> set (ws[w := x])"
proof -
  assume a: "wk \<in> set ws" and b: "wk \<noteq> ws ! w"
  then obtain k where k: "k < length ws" "ws ! k = wk" by (auto simp: in_set_conv_nth)
  then have "k \<noteq> w" using b by auto
  then have "ws[w := x] ! k = wk" using k by simp
  then show ?thesis using k by (metis length_list_update nth_mem)
qed

lemma set_update_cases: "wk \<in> set (ws[w := x]) \<Longrightarrow> wk = x \<or> wk \<in> set ws"
  using set_update_subset_insert[of ws w x] by auto

lemma holds_unique: "holds wk i \<Longrightarrow> holds wk j \<Longrightarrow> i = j"
  by (cases wk) (simp_all add: holds_def)

lemma pool_inv_replace:
  assumes inv: "pool_inv en coe dets pgs gs st"
    and w: "w < length (workers st)"
    and h: "holds (workers st ! w) i"
    and wr: "holds x i \<or> group_written en dets pgs (gs ! i) (processedPages st)"
    and x1: "\<forall>j. holds x j \<longrightarrow> j = i"
    and x2: "\<forall>j r. x = AwaitTitle j r \<longrightarrow> describePageAndGenerate en (gs ! j) = Inr r"
    and x3: "x = Finished \<longrightarrow> groupCursor st = length gs"
    and x4: "coe \<longrightarrow> (\<forall>e. x \<noteq> Rejected e)"
  shows "pool_inv en coe dets pgs gs (st\<lparr>workers := (workers st)[w := x]\<rparr>)"
proof -
  let ?ws = "workers st" and ?ws' = "(workers st)[w := x]"
  from inv have i1: "length (processedPages st) = length pgs"
    and i2: "groupCursor st \<le> length gs"
    and i3: "\<forall>j < groupCursor st. (\<exists>wk \<in> set ?ws. holds wk j) \<or> group_written en dets pgs (gs ! j) (processedPages st)"
    and i4: "\<forall>wk \<in> set ?ws. \<forall>j. holds wk j \<longrightarrow> j < groupCursor st"
    and i5: "\<forall>j r. AwaitTitle j r \<in> set ?ws \<longrightarrow> describePageAndGenerate en (gs ! j) = Inr r"
    and i6: "Finished \<in> set ?ws \<longrightarrow> groupCursor st = length gs"
    and i7: "coe \<longrightarrow> (\<forall>e. Rejected e \<notin> set ?ws)"
    unfolding pool_inv_def by blast+
  have xin: "x \<in> set ?ws'" using w by (simp add: set_update_memI)
  have ic: "i < groupCursor st" using i4 h w by (meson nth_mem)
  have n3: "\<forall>j < groupCursor st. (\<exists>wk \<in> set ?ws'. holds wk j) \<or> group_written en dets pgs (gs ! j) (processedPages st)"
  proof (intro allI impI)
    fix j assume j: "j < groupCursor st"
    show "(\<exists>wk \<in> set ?ws'. holds wk j) \<or> group_written en dets pgs (gs ! j) (processedPages st)"
    proof (cases "j = i")
      case True
      then show ?thesis using wr xin by blast
    next
      case False
      from i3 j consider wk where "wk \<in> set ?ws" "holds wk j"
        | "group_written en dets pgs (gs ! j) (processedPages st)" by blast
      then show ?thesis
      proof cases
        case 1
        then have "wk \<noteq> ?ws ! w" using h False holds_unique by blast
        then have "wk \<in> set ?ws'" using 1 by (intro set_update_keep)
        then show ?thesis using 1 by blast
      next
        case 2
        then show ?thesis by blast
      qed
    qed
  qed
  have n4: "\<forall>wk \<in> set ?ws'. \<forall>j. holds wk j \<longrightarrow> j < groupCursor st"
    using i4 x1 ic set_update_cases[of _ ?ws w x] by blast
  have n5: "\<forall>j r. AwaitTitle j r \<in> set ?ws' \<longrightarrow> describePageAndGenerate en (gs ! j) = Inr r"
    using i5 x2 set_update_cases[of _ ?ws w x] by blast
  have n6: "Finished \<in> set ?ws' \<longrightarrow> groupCursor st = length gs"
    using i6 x3 set_update_cases[of Finished ?ws w x] by blast
  have n7: "coe \<longrightarrow> (\<forall>e. Rejected e \<notin> set ?ws')"
    using i7 x4 set_update_cases[of _ ?ws w x] by blast
  show ?thesis unfolding pool_inv_def using i1 i2 n3 n4 n5 n6 n7 by simp
qed


lemma pool_inv_calls [simp]: "pool_inv en coe dets pgs gs (st\<lparr>calls := cs\<rparr>) = pool_inv en coe dets pgs gs st"
  by (simp add: pool_inv_def)

lemma pool_inv_advance:
  assumes inv: "pool_inv en coe dets pgs gs st"
    and w: "w < length (workers st)"
    and h: "holds (workers st ! w) i"
    and wr: "group_written en dets pgs (gs ! i) (processedPages st)"
    and c: "groupCursor st < length gs"
  shows "pool_inv en coe dets pgs gs
           (st\<lparr>groupCursor := groupCursor st + 1, workers := (workers st)[w := AwaitDescribe (groupCursor st)]\<rparr>)"
proof -
  let ?ws = "workers st" and ?c = "groupCursor st"
  let ?ws' = "(workers st)[w := AwaitDescribe ?c]"
  from inv have i1: "length (processedPages st) = length pgs"
    and i3: "\<forall>j < ?c. (\<exists>wk \<in> set ?ws. holds wk j) \<or> group_written en dets pgs (gs ! j) (processedPages st)"
    and i4: "\<forall>wk \<in> set ?ws. \<forall>j. holds wk j \<longrightarrow> j < ?c"
    and i5: "\<forall>j r. AwaitTitle j r \<in> set ?ws \<longrightarrow> describePageAndGenerate en (gs ! j) = Inr r"
    and i6: "Finished \<in> set ?ws \<longrightarrow> ?c = length gs"
    and i7: "coe \<longrightarrow> (\<forall>e. Rejected e \<notin> set ?ws)"
    unfolding pool_inv_def by blast+
  have xin: "AwaitDescribe ?c \<in> set ?ws'" using w by (simp add: set_update_memI)
  have n3: "\<forall>j < ?c + 1. (\<exists>wk \<in> set ?ws'. holds wk j) \<or> group_written en dets pgs (gs ! j) (processedPages st)"
  proof (intro allI impI)
    fix j assume j: "j < ?c + 1"
    show "(\<exists>wk \<in> set ?ws'. holds wk j) \<or> group_written en dets pgs (gs ! j) (processedPages st)"
    proof (cases "j = ?c")
      case True
      have "holds (AwaitDescribe ?c) j" using True by (simp add: holds_def)
      then show ?thesis using xin by blast
    next
      case False
      then have jc: "j < ?c" using j by simp
      show ?thesis
      proof (cases "j = i")
        case True
        then show ?thesis using wr by blast
      next
        case False
        from i3 jc consider wk where "wk \<in> set ?ws" "holds wk j"
          | "group_written en dets pgs (gs ! j) (processedPages st)" by blast
        then show ?thesis
        proof cases
          case 1
          then have "wk \<noteq> ?ws ! w" using h False holds_unique by blast
          then have "wk \<in> set ?ws'" using 1 by (intro set_update_keep)
          then show ?thesis using 1 by blast
        next
          case 2
          then show ?thesis by blast
        qed
      qed
    qed
  qed
  have n4: "\<forall>wk \<in> set ?ws'. \<forall>j. holds wk j \<longrightarrow> j < ?c + 1"
  proof (intro ballI allI impI)
    fix wk j assume a: "wk \<in> set ?ws'" and b: "holds wk j"
    from set_update_cases[OF a] show "j < ?c + 1"
    proof
      assume "wk = AwaitDescribe ?c"
      then show ?thesis using b by (simp add: holds_def)
    next
      assume "wk \<in> set ?ws"
      then have "j < ?c" using i4 b by blast
      then show ?thesis by simp
    qed
  qed
  have n5: "\<forall>j r. AwaitTitle j r \<in> set ?ws' \<longrightarrow> describePageAndGenerate en (gs ! j) = Inr r"
    using i5 set_update_cases[of _ ?ws w "AwaitDescribe ?c"] by blast
  have n6: "Finished \<notin> set ?ws'"
    using i6 c set_update_cases[of Finished ?ws w "AwaitDescribe ?c"] by auto
  have n7: "coe \<longrightarrow> (\<forall>e. Rejected e \<notin> set ?ws')"
    using i7 set_update_cases[of _ ?ws w "AwaitDescribe ?c"] by blast
  show ?thesis unfolding pool_inv_def using i1 c n3 n4 n5 n6 n7 by simp
qed

lemma pool_inv_claim_as:
  assumes inv: "pool_inv en coe dets pgs gs st"
    and w: "w < length (workers st)"
    and h: "holds (workers st ! w) i"
    and wr: "group_written en dets pgs (gs ! i) (processedPages st)"
  shows "pool_inv en coe dets pgs gs (claim_as gs w st)"
proof (cases "groupCursor st \<ge> length gs")
  case True
  from inv have "groupCursor st \<le> length gs" unfolding pool_inv_def by blast
  with True have e: "groupCursor st = length gs" by simp
  have "claim_as gs w st = st\<lparr>workers := (workers st)[w := Finished]\<rparr>"
    using True by (simp add: claim_as_def claim_def)
  moreover have "pool_inv en coe dets pgs gs (st\<lparr>workers := (workers st)[w := Finished]\<rparr>)"
    using inv w h wr e by (intro pool_inv_replace[where i = i]) (simp_all add: holds_def)
  ultimately show ?thesis by simp
next
  case False
  then have c: "groupCursor st < length gs" by simp
  have "claim_as gs w st =
          (st\<lparr>groupCursor := groupCursor st + 1,
              workers := (workers st)[w := AwaitDescribe (groupCursor st)]\<rparr>)
          \<lparr>calls := calls st @ [Describe (groupId (gs ! groupCursor st))]\<rparr>"
    using False by (simp add: claim_as_def claim_def Let_def)
  moreover have "pool_inv en coe dets pgs gs
           (st\<lparr>groupCursor := groupCursor st + 1, workers := (workers st)[w := AwaitDescribe (groupCursor st)]\<rparr>)"
    using inv w h wr c by (rule pool_inv_advance)
  ultimately show ?thesis by simp
qed

lemma pool_inv_write:
  assumes inv: "pool_inv en coe dets pgs gs st"
    and cov: "covers gs (length pgs)"
    and w: "w < length (workers st)"
    and h: "holds (workers st ! w) i"
    and mk: "mk = page_of en dets pgs (gs ! i)"
  shows "pool_inv en coe dets pgs gs (st\<lparr>processedPages := write_pages mk (gs ! i) (processedPages st)\<rparr>) \<and>
         group_written en dets pgs (gs ! i) (write_pages mk (gs ! i) (processedPages st))"
proof -
  let ?pp = "processedPages st" and ?ws = "workers st"
  let ?pp' = "write_pages mk (gs ! i) ?pp"
  from inv have i1: "length ?pp = length pgs"
    and i2: "groupCursor st \<le> length gs"
    and i3: "\<forall>j < groupCursor st. (\<exists>wk \<in> set ?ws. holds wk j) \<or> group_written en dets pgs (gs ! j) ?pp"
    and i4: "\<forall>wk \<in> set ?ws. \<forall>j. holds wk j \<longrightarrow> j < groupCursor st"
    and i5: "\<forall>j r. AwaitTitle j r \<in> set ?ws \<longrightarrow> describePageAndGenerate en (gs ! j) = Inr r"
    and i6: "Finished \<in> set ?ws \<longrightarrow> groupCursor st = length gs"
    and i7: "coe \<longrightarrow> (\<forall>e. Rejected e \<notin> set ?ws)"
    unfolding pool_inv_def by blast+
  have ic: "i < groupCursor st" using i4 h w by (meson nth_mem)
  then have il: "i < length gs" using i2 by simp
  have bnd: "\<forall>p \<in> set (pageIndices (gs ! i)). p < length ?pp"
    using covers_bound[OF cov il] i1 by simp
  have dis: "distinct (pageIndices (gs ! i))" using covers_distinct[OF cov il] .
  have len: "length ?pp' = length pgs"
    using bnd i1 by (simp add: write_pages_from write_from_length)
  have wi: "group_written en dets pgs (gs ! i) ?pp'"
    unfolding group_written_def
    using write_from_nth[OF bnd dis, of _ mk 0] mk by (simp add: write_pages_from)
  have n3: "\<forall>j < groupCursor st. (\<exists>wk \<in> set ?ws. holds wk j) \<or> group_written en dets pgs (gs ! j) ?pp'"
  proof (intro allI impI)
    fix j assume j: "j < groupCursor st"
    show "(\<exists>wk \<in> set ?ws. holds wk j) \<or> group_written en dets pgs (gs ! j) ?pp'"
    proof (cases "j = i")
      case True
      then show ?thesis using wi by simp
    next
      case False
      have jl: "j < length gs" using j i2 by simp
      from i3 j consider "\<exists>wk \<in> set ?ws. holds wk j" | "group_written en dets pgs (gs ! j) ?pp" by blast
      then show ?thesis
      proof cases
        case 1
        then show ?thesis by blast
      next
        case 2
        have "group_written en dets pgs (gs ! j) ?pp'"
          unfolding group_written_def
        proof (intro allI impI)
          fix li assume li: "li < length (pageIndices (gs ! j))"
          then have "pageIndices (gs ! j) ! li \<in> set (pageIndices (gs ! j))" by simp
          then have "pageIndices (gs ! j) ! li \<notin> set (pageIndices (gs ! i))"
            using covers_disjoint[OF cov jl il False] by blast
          then have "?pp' ! (pageIndices (gs ! j) ! li) = ?pp ! (pageIndices (gs ! j) ! li)"
            using bnd by (simp add: write_pages_from write_from_other)
          then show "?pp' ! (pageIndices (gs ! j) ! li) =
                     Some (page_of en dets pgs (gs ! j) (pageIndices (gs ! j) ! li) li)"
            using 2 li by (simp add: group_written_def)
        qed
        then show ?thesis by blast
      qed
    qed
  qed
  have "pool_inv en coe dets pgs gs (st\<lparr>processedPages := ?pp'\<rparr>)"
    unfolding pool_inv_def using len i2 n3 i4 i5 i6 i7 by simp
  then show ?thesis using wi by blast
qed


lemma page_of_failure: "group_outcome en dets g = Inl e \<Longrightarrow> page_of en dets pgs g = failure_page dets pgs g e"
  by (simp add: page_of_def fun_eq_iff)

lemma page_of_success: "group_outcome en dets g = Inr r \<Longrightarrow> page_of en dets pgs g = success_page dets pgs g r"
  by (simp add: page_of_def fun_eq_iff)

lemma fail_group_inv:
  assumes inv: "pool_inv en coe dets pgs gs st"
    and cov: "covers gs (length pgs)"
    and w: "w < length (workers st)"
    and h: "holds (workers st ! w) i"
    and out: "group_outcome en dets (gs ! i) = Inl e"
  shows "pool_inv en coe dets pgs gs (fail_group coe dets pgs gs st w i e)"
proof -
  let ?st1 = "st\<lparr>processedPages := write_pages (failure_page dets pgs (gs ! i) e) (gs ! i) (processedPages st)\<rparr>"
  have mk: "failure_page dets pgs (gs ! i) e = page_of en dets pgs (gs ! i)"
    using page_of_failure[OF out] by simp
  have a: "pool_inv en coe dets pgs gs ?st1"
    and b: "group_written en dets pgs (gs ! i) (processedPages ?st1)"
    using pool_inv_write[OF inv cov w h mk] by simp_all
  have w1: "w < length (workers ?st1)" and h1: "holds (workers ?st1 ! w) i" using w h by simp_all
  show ?thesis
  proof (cases coe)
    case True
    then have "fail_group coe dets pgs gs st w i e = claim_as gs w ?st1"
      by (simp add: fail_group_def Let_def)
    then show ?thesis using pool_inv_claim_as[OF a w1 h1 b] by simp
  next
    case False
    then have "fail_group coe dets pgs gs st w i e = ?st1\<lparr>workers := (workers ?st1)[w := Rejected e]\<rparr>"
      by (simp add: fail_group_def Let_def)
    moreover have "pool_inv en coe dets pgs gs (?st1\<lparr>workers := (workers ?st1)[w := Rejected e]\<rparr>)"
      using a w1 h1 b False by (intro pool_inv_replace[where i = i]) (simp_all add: holds_def)
    ultimately show ?thesis by simp
  qed
qed

lemma resume_inv:
  assumes inv: "pool_inv en coe dets pgs gs st" and cov: "covers gs (length pgs)"
  shows "pool_inv en coe dets pgs gs (resume en coe dets pgs gs st w)"
proof (cases "w < length (workers st)")
  case False
  then show ?thesis using inv by (simp add: resume_def)
next
  case w: True
  show ?thesis
  proof (cases "workers st ! w")
    case (AwaitDescribe i)
    then have h: "holds (workers st ! w) i" by (simp add: holds_def)
    show ?thesis
    proof (cases "describePageAndGenerate en (gs ! i)")
      case (Inl e)
      then have "group_outcome en dets (gs ! i) = Inl e" by (simp add: group_outcome_def)
      then have "pool_inv en coe dets pgs gs (fail_group coe dets pgs gs st w i e)"
        using fail_group_inv[OF inv cov w h] by simp
      then show ?thesis using w AwaitDescribe Inl by (simp add: resume_def)
    next
      case (Inr r)
      have "pool_inv en coe dets pgs gs (st\<lparr>workers := (workers st)[w := AwaitTitle i r]\<rparr>)"
        using inv w h Inr by (intro pool_inv_replace[where i = i]) (simp_all add: holds_def)
      then show ?thesis using w AwaitDescribe Inr by (simp add: resume_def)
    qed
  next
    case (AwaitTitle i r)
    then have h: "holds (workers st ! w) i" by (simp add: holds_def)
    have "AwaitTitle i r \<in> set (workers st)" using w AwaitTitle by (metis nth_mem)
    then have d: "describePageAndGenerate en (gs ! i) = Inr r"
      using inv unfolding pool_inv_def by blast
    show ?thesis
    proof (cases "addTitleToImage en (renderPath r) (titleText dets (gs ! i))")
      case (Inl e)
      then have "group_outcome en dets (gs ! i) = Inl e" using d by (simp add: group_outcome_def)
      then have "pool_inv en coe dets pgs gs (fail_group coe dets pgs gs st w i e)"
        using fail_group_inv[OF inv cov w h] by simp
      then show ?thesis using w AwaitTitle Inl by (simp add: resume_def)
    next
      case (Inr u)
      let ?st1 = "st\<lparr>processedPages := write_pages (success_page dets pgs (gs ! i) r) (gs ! i) (processedPages st)\<rparr>"
      have "group_outcome en dets (gs ! i) = Inr r" using d Inr by (simp add: group_outcome_def)
      then have mk: "success_page dets pgs (gs ! i) r = page_of en dets pgs (gs ! i)"
        using page_of_success by simp
      have a: "pool_inv en coe dets pgs gs ?st1"
        and b: "group_written en dets pgs (gs ! i) (processedPages ?st1)"
        using pool_inv_write[OF inv cov w h mk] by simp_all
      have w1: "w < length (workers ?st1)" and h1: "holds (workers ?st1 ! w) i" using w h by simp_all
      have "pool_inv en coe dets pgs gs (claim_as gs w ?st1)"
        using pool_inv_claim_as[OF a w1 h1 b] .
      then show ?thesis using w AwaitTitle Inr by (simp add: resume_def)
    qed
  next
    case Finished
    then show ?thesis using inv w by (simp add: resume_def)
  next
    case (Rejected e)
    then show ?thesis using inv w by (simp add: resume_def)
  qed
qed


lemma pool_run_inv:
  "pool_inv en coe dets pgs gs st \<Longrightarrow> covers gs (length pgs) \<Longrightarrow>
   pool_run en coe dets pgs gs sched st = (s, st') \<Longrightarrow>
   pool_inv en coe dets pgs gs st' \<and> s = settlement_of st'"
proof (induction sched arbitrary: st)
  case Nil
  then show ?case by auto
next
  case (Cons w sched)
  show ?case
  proof (cases "settlement_of st \<noteq> StillPending")
    case True
    then show ?thesis using Cons.prems by auto
  next
    case False
    then have "pool_run en coe dets pgs gs sched (resume en coe dets pgs gs st w) = (s, st')"
      using Cons.prems(3) by simp
    moreover have "pool_inv en coe dets pgs gs (resume en coe dets pgs gs st w)"
      using Cons.prems(1,2) by (rule resume_inv)
    ultimately show ?thesis using Cons.IH Cons.prems(2) by blast
  qed
qed


lemma start_workers_Suc:
  "start_workers gs (Suc k) st =
     (case claim gs (start_workers gs k st) of (ws, s') \<Rightarrow> s'\<lparr>workers := workers s' @ [ws]\<rparr>)"
  by (simp add: start_workers_def)

lemma start_workers_eq:
  "start_workers gs k \<lparr>groupCursor = 0, processedPages = pp, workers = [], calls = tr\<rparr> =
     \<lparr>groupCursor = min k (length gs), processedPages = pp,
      workers = map AwaitDescribe [0..<min k (length gs)] @ replicate (k - length gs) Finished,
      calls = tr @ map (\<lambda>i. Describe (groupId (gs ! i))) [0..<min k (length gs)]\<rparr>"
proof (induction k)
  case 0
  then show ?case by (simp add: start_workers_def)
next
  case (Suc k)
  show ?case
  proof (cases "k < length gs")
    case True
    then have m: "min k (length gs) = k" "min (Suc k) (length gs) = Suc k" by simp_all
    show ?thesis using True
      by (simp add: start_workers_Suc Suc.IH m claim_def Let_def)
  next
    case False
    then have m: "min k (length gs) = length gs" "min (Suc k) (length gs) = length gs" by simp_all
    have r: "replicate (Suc k - length gs) Finished = replicate (k - length gs) Finished @ [Finished]"
      using False by (simp add: Suc_diff_le replicate_append_same)
    show ?thesis using False
      by (simp add: start_workers_Suc Suc.IH m claim_def Let_def r)
  qed
qed

lemma init_pool_eq:
  "init_pool pgs gs k tr =
     \<lparr>groupCursor = min k (length gs), processedPages = replicate (length pgs) None,
      workers = map AwaitDescribe [0..<min k (length gs)] @ replicate (k - length gs) Finished,
      calls = tr @ map (\<lambda>i. Describe (groupId (gs ! i))) [0..<min k (length gs)]\<rparr>"
  by (simp add: init_pool_def start_workers_eq)

lemma init_pool_inv: "pool_inv en coe dets pgs gs (init_pool pgs gs k tr)"
proof -
  let ?m = "min k (length gs)"
  let ?ws = "map AwaitDescribe [0..<?m] @ replicate (k - length gs) Finished"
  let ?st = "\<lparr>groupCursor = ?m, processedPages = replicate (length pgs) None,
      workers = ?ws, calls = tr @ map (\<lambda>i. Describe (groupId (gs ! i))) [0..<?m]\<rparr>"
  have 1: "length (processedPages ?st) = length pgs" by simp
  have 2: "groupCursor ?st \<le> length gs" by simp
  have 3: "\<forall>i < groupCursor ?st. (\<exists>wk \<in> set (workers ?st). holds wk i) \<or>
             group_written en dets pgs (gs ! i) (processedPages ?st)"
  proof (intro allI impI)
    fix i assume "i < groupCursor ?st"
    then have "AwaitDescribe i \<in> set (workers ?st)" by simp
    moreover have "holds (AwaitDescribe i) i" by (simp add: holds_def)
    ultimately show "(\<exists>wk \<in> set (workers ?st). holds wk i) \<or>
             group_written en dets pgs (gs ! i) (processedPages ?st)" by blast
  qed
  have 4: "\<forall>wk \<in> set (workers ?st). \<forall>i. holds wk i \<longrightarrow> i < groupCursor ?st"
  proof (intro ballI allI impI)
    fix wk i assume a: "wk \<in> set (workers ?st)" and h: "holds wk i"
    from a have "(\<exists>j < ?m. wk = AwaitDescribe j) \<or> wk = Finished" by auto
    then show "i < groupCursor ?st" using h by (auto simp: holds_def)
  qed
  have 5: "\<forall>i r. AwaitTitle i r \<in> set (workers ?st) \<longrightarrow> describePageAndGenerate en (gs ! i) = Inr r"
    by auto
  have 6: "Finished \<in> set (workers ?st) \<longrightarrow> groupCursor ?st = length gs" by auto
  have 7: "coe \<longrightarrow> (\<forall>e. Rejected e \<notin> set (workers ?st))" by auto
  have "pool_inv en coe dets pgs gs ?st"
    unfolding pool_inv_def by (intro conjI 1 2 3 4 5 6 7)
  then show ?thesis by (simp only: init_pool_eq)
qed

lemma init_pool_workers: "length (workers (init_pool pgs gs k tr)) = k"
  by (simp add: init_pool_eq)

lemma claim_as_length: "length (workers (claim_as gs w st)) = length (workers st)"
  by (simp add: claim_as_def claim_def Let_def)

lemma fail_group_length: "length (workers (fail_group coe dets pgs gs st w i e)) = length (workers st)"
  by (simp add: fail_group_def Let_def claim_as_length)

lemma resume_length: "length (workers (resume en coe dets pgs gs st w)) = length (workers st)"
  by (simp add: resume_def fail_group_length claim_as_length split: worker.splits sum.splits)

lemma pool_run_length:
  "pool_run en coe dets pgs gs sched st = (s, st') \<Longrightarrow> length (workers st') = length (workers st)"
proof (induction sched arbitrary: st)
  case Nil
  then show ?case by auto
next
  case (Cons w sched)
  show ?case
  proof (cases "settlement_of st \<noteq> StillPending")
    case True
    then show ?thesis using Cons.prems by auto
  next
    case False
    then have "pool_run en coe dets pgs gs sched (resume en coe dets pgs gs st w) = (s, st')"
      using Cons.prems by simp
    then have "length (workers st') = length (workers (resume en coe dets pgs gs st w))"
      by (rule Cons.IH)
    then show ?thesis by (simp add: resume_length)
  qed
qed

lemma first_rejection_None: "first_rejection ws = None \<longleftrightarrow> (\<forall>e. Rejected e \<notin> set ws)"
  by (induction ws rule: first_rejection.induct) auto

lemma fulfilled_all_written:
  assumes inv: "pool_inv en coe dets pgs gs st"
    and ne: "workers st \<noteq> []"
    and f: "settlement_of st = Fulfilled"
  shows "groupCursor st = length gs \<and> (\<forall>i < length gs. group_written en dets pgs (gs ! i) (processedPages st))"
proof -
  from f have all: "list_all (\<lambda>w. w = Finished) (workers st)"
    by (auto simp: settlement_of_def split: option.splits if_splits)
  then have af: "\<forall>wk \<in> set (workers st). wk = Finished" by (simp add: list_all_iff)
  then have "Finished \<in> set (workers st)" using ne by (cases "workers st") auto
  then have c: "groupCursor st = length gs" using inv unfolding pool_inv_def by blast
  have nh: "\<forall>wk \<in> set (workers st). \<forall>i. \<not> holds wk i" using af by (auto simp: holds_def)
  have i3: "\<forall>i < groupCursor st. (\<exists>wk \<in> set (workers st). holds wk i) \<or>
                   group_written en dets pgs (gs ! i) (processedPages st)"
    using inv unfolding pool_inv_def by blast
  have "\<forall>i < length gs. group_written en dets pgs (gs ! i) (processedPages st)"
  proof (intro allI impI)
    fix i assume "i < length gs"
    then have "i < groupCursor st" using c by simp
    then show "group_written en dets pgs (gs ! i) (processedPages st)" using i3 nh by blast
  qed
  then show ?thesis using c by blast
qed

lemma written_pages_set:
  assumes cov: "covers gs (length pgs)"
    and wr: "\<forall>i < length gs. group_written en dets pgs (gs ! i) pp"
    and p: "p < length pgs"
  shows "pp ! p \<noteq> None"
proof -
  obtain i li where "i < length gs" "li < length (pageIndices (gs ! i))" "pageIndices (gs ! i) ! li = p"
    using covers_page[OF cov p] by blast
  then show ?thesis using wr by (auto simp: group_written_def)
qed

lemma enumerate_keep:
  "m < n \<Longrightarrow> map snd (filter (\<lambda>(idx, p). idx \<noteq> m) (enumerate n ps)) = ps"
  by (induction ps arbitrary: n) simp_all

lemma companions_from:
  "map snd (filter (\<lambda>(idx, p). idx \<noteq> n + li) (enumerate n ps)) = take li ps @ drop (Suc li) ps"
proof (induction ps arbitrary: n li)
  case Nil
  then show ?case by simp
next
  case (Cons p ps)
  show ?case
  proof (cases li)
    case 0
    then show ?thesis using enumerate_keep[of n "Suc n" ps] by simp
  next
    case (Suc l)
    have "map snd (filter (\<lambda>(idx, p). idx \<noteq> Suc n + l) (enumerate (Suc n) ps)) = take l ps @ drop (Suc l) ps"
      by (rule Cons.IH)
    then show ?thesis using Suc by simp
  qed
qed

lemma companions_take_drop: "companions ps li = take li ps @ drop (Suc li) ps"
  using companions_from[of 0 li ps] by (simp add: companions_def)

lemma filter_upt_other:
  assumes "a \<le> p" and "p < b"
  shows "filter (\<lambda>q. q \<noteq> p) [a..<b] = [a..<p] @ [Suc p..<b]"
proof -
  have "[a..<b] = [a..<p] @ p # [Suc p..<b]"
    using assms by (metis le_add_diff_inverse less_imp_le_nat upt_add_eq_append upt_conv_Cons)
  then show ?thesis by simp
qed

lemma companions_span:
  assumes "li < b - a"
  shows "companions (map f [a..<b]) li = map f (filter (\<lambda>q. q \<noteq> a + li) [a..<b])"
proof -
  have 1: "take li (map f [a..<b]) = map f [a..<a + li]"
    using assms by (simp add: take_map take_upt)
  have 2: "drop (Suc li) (map f [a..<b]) = map f [Suc (a + li)..<b]"
    by (simp add: drop_map drop_upt)
  have 3: "filter (\<lambda>q. q \<noteq> a + li) [a..<b] = [a..<a + li] @ [Suc (a + li)..<b]"
    using assms by (intro filter_upt_other) simp_all
  show ?thesis by (simp add: companions_take_drop 1 2 3)
qed

lemma make_groups_nth:
  assumes "j < length (make_groups dets pgs)"
  shows "groupId (make_groups dets pgs ! j) = j + 1 \<and>
         (\<exists>a b. group_spans dets pgs (make_groups dets pgs ! j) a b)"
proof -
  let ?gs = "make_groups dets pgs"
  have m: "map groupId ?gs = [1 ..< 1 + length ?gs]"
    using make_groups_spans[of dets pgs] by blast
  have "[1 ..< 1 + length ?gs] ! j = 1 + j" using assms by (intro nth_upt) simp
  with m have "map groupId ?gs ! j = 1 + j" by (simp only:)
  then have "groupId (?gs ! j) = j + 1" using assms by simp
  moreover have "?gs ! j \<in> set ?gs" using assms by simp
  then have "\<exists>a b. group_spans dets pgs (?gs ! j) a b"
    using make_groups_spans[of dets pgs] by blast
  ultimately show ?thesis by blast
qed

lemma group_page_fields:
  assumes j: "j < length (make_groups dets pgs)"
    and p: "p \<in> set (pageIndices (make_groups dets pgs ! j))"
  shows "\<exists>li < length (pageIndices (make_groups dets pgs ! j)).
           pageIndices (make_groups dets pgs ! j) ! li = p \<and>
           page_at pgs p = pgs ! p \<and>
           groupId (make_groups dets pgs ! j) = j + 1 \<and>
           companions (pages (make_groups dets pgs ! j)) li =
             map (\<lambda>q. pgs ! q) (filter (\<lambda>q. q \<noteq> p) (pageIndices (make_groups dets pgs ! j)))"
proof -
  let ?g = "make_groups dets pgs ! j"
  from make_groups_nth[OF j] obtain a b where id: "groupId ?g = j + 1"
    and sp: "group_spans dets pgs ?g a b" by blast
  from sp have pi: "pageIndices ?g = [a..<b]" and pg: "pages ?g = map (page_at pgs) [a..<b]"
    and bl: "b \<le> length pgs"
    by (simp_all add: group_spans_def run_ok_def)
  from p pi have ap: "a \<le> p" and pb: "p < b" by simp_all
  let ?li = "p - a"
  have l: "?li < length (pageIndices ?g)" using ap pb pi by simp
  have n: "pageIndices ?g ! ?li = p" using ap pb pi by simp
  have pa: "page_at pgs p = pgs ! p" using pb bl by (simp add: page_at_def)
  have "companions (pages ?g) ?li = map (page_at pgs) (filter (\<lambda>q. q \<noteq> a + ?li) [a..<b])"
    unfolding pg using ap pb by (intro companions_span) simp
  moreover have "a + ?li = p" using ap by simp
  moreover have "map (page_at pgs) (filter (\<lambda>q. q \<noteq> p) [a..<b]) = map (\<lambda>q. pgs ! q) (filter (\<lambda>q. q \<noteq> p) [a..<b])"
    using bl by (intro map_cong) (auto simp: page_at_def)
  ultimately have c: "companions (pages ?g) ?li = map (\<lambda>q. pgs ! q) (filter (\<lambda>q. q \<noteq> p) (pageIndices ?g))"
    using pi by simp
  from l n pa id c show ?thesis by blast
qed
section \<open>The pool inside pdfGenerate\<close>

lemma groups_nonempty: "pgs \<noteq> [] \<Longrightarrow> make_groups dets pgs \<noteq> []"
proof
  assume a: "pgs \<noteq> []" and b: "make_groups dets pgs = []"
  have "concat (map pageIndices (make_groups dets pgs)) = [0..<length pgs]"
    using make_groups_spans[of dets pgs] by blast
  with b have "[0..<length pgs] = []" by simp
  with a show False by simp
qed

lemma workerCount_positive:
  "pgs \<noteq> [] \<Longrightarrow> 0 < min (effective_concurrency opts) (length (make_groups dets pgs))"
proof -
  assume "pgs \<noteq> []"
  then have "0 < length (make_groups dets pgs)" using groups_nonempty by blast
  moreover have "0 < effective_concurrency opts"
    by (simp add: effective_concurrency_def split: option.splits)
  ultimately show ?thesis by simp
qed

lemma pool_of_inv:
  assumes "pool_of en opts dets pgs sched tr = (s, st)"
  shows "pool_inv en (opt_continueOnError opts) dets pgs (make_groups dets pgs) st \<and>
         s = settlement_of st \<and>
         length (workers st) = min (effective_concurrency opts) (length (make_groups dets pgs))"
proof -
  let ?gs = "make_groups dets pgs"
  let ?k = "min (effective_concurrency opts) (length ?gs)"
  have r: "pool_run en (opt_continueOnError opts) dets pgs ?gs sched (init_pool pgs ?gs ?k tr) = (s, st)"
    using assms by (simp add: pool_of_def)
  have "pool_inv en (opt_continueOnError opts) dets pgs ?gs st \<and> s = settlement_of st"
    using pool_run_inv[OF init_pool_inv covers_make_groups r] .
  moreover have "length (workers st) = ?k"
    using pool_run_length[OF r] by (simp add: init_pool_workers)
  ultimately show ?thesis by blast
qed


lemma pool_of_fulfilled_written:
  assumes ne: "pgs \<noteq> []" and run: "pool_of en opts dets pgs sched tr = (Fulfilled, st)"
  shows "length (processedPages st) = length pgs \<and>
         (\<forall>i < length (make_groups dets pgs).
            group_written en dets pgs (make_groups dets pgs ! i) (processedPages st))"
proof -
  from pool_of_inv[OF run]
  have inv: "pool_inv en (opt_continueOnError opts) dets pgs (make_groups dets pgs) st"
    and s: "settlement_of st = Fulfilled"
    and l: "length (workers st) = min (effective_concurrency opts) (length (make_groups dets pgs))"
    by simp_all
  have "0 < length (workers st)" using l workerCount_positive[OF ne, of opts dets] by simp
  then have "workers st \<noteq> []" by auto
  then have "\<forall>i < length (make_groups dets pgs).
            group_written en dets pgs (make_groups dets pgs ! i) (processedPages st)"
    using fulfilled_all_written[OF inv _ s] by blast
  moreover have "length (processedPages st) = length pgs" using inv unfolding pool_inv_def by blast
  ultimately show ?thesis by blast
qed

lemma pool_of_never_rejects:
  assumes "opt_continueOnError opts"
  shows "fst (pool_of en opts dets pgs sched tr) \<noteq> RejectedWith e"
proof -
  obtain s st where run: "pool_of en opts dets pgs sched tr = (s, st)" by (cases "pool_of en opts dets pgs sched tr")
  from pool_of_inv[OF run]
  have inv: "pool_inv en (opt_continueOnError opts) dets pgs (make_groups dets pgs) st"
    and s: "s = settlement_of st" by simp_all
  have "\<forall>e. Rejected e \<notin> set (workers st)" using inv assms unfolding pool_inv_def by blast
  then have "first_rejection (workers st) = None" by (simp add: first_rejection_None)
  then have "settlement_of st \<noteq> RejectedWith e" by (simp add: settlement_of_def)
  then show ?thesis using run s by simp
qed

lemma process_pages_pool:
  "process_pages en opts sched pagesDir outputDir pageImages pgs dets tr =
     (case pool_of en opts dets pgs sched tr of
        (RejectedWith e, st) \<Rightarrow> (Threw e, calls st)
      | (StillPending, st) \<Rightarrow> (Waiting, calls st)
      | (Fulfilled, st) \<Rightarrow>
          (case merge_step en opts outputDir pagesDir (calls st) of
             (mergedPdfPath, tr') \<Rightarrow>
               (Returned
                  \<lparr>r_pagesDir = pagesDir, r_outputDir = outputDir, r_pageImages = pageImages,
                   r_processedPages = processedPages st,
                   r_skipPages = Some (effective_skipPages opts),
                   r_concurrency = Some (min (effective_concurrency opts) (length (make_groups dets pgs))),
                   r_groups = Some (make_groups dets pgs),
                   r_roomDetections = Some dets,
                   r_mergedPdfPath = mergedPdfPath\<rparr>,
                tr')))"
  by (simp add: process_pages_def pool_of_def Let_def)

section \<open>A failure in strict mode\<close>





section \<open>The pool completes\<close>

lemma weight_update:
  "w < length ws \<Longrightarrow> sum_list (map weight (ws[w := x])) + weight (ws ! w) = sum_list (map weight ws) + weight x"
proof (induction ws arbitrary: w)
  case Nil
  then show ?case by simp
next
  case (Cons a ws)
  then show ?case by (cases w) auto
qed

lemma claim_as_remaining:
  assumes "w < length (workers st)" and "groupCursor st \<le> length gs"
  shows "remaining gs (claim_as gs w st) + weight (workers st ! w) \<le> remaining gs st \<and>
         groupCursor (claim_as gs w st) \<le> length gs"
proof (cases "groupCursor st \<ge> length gs")
  case True
  then have "claim_as gs w st = st\<lparr>workers := (workers st)[w := Finished]\<rparr>"
    by (simp add: claim_as_def claim_def)
  then show ?thesis using weight_update[OF assms(1), of Finished] assms(2)
    by (simp add: remaining_def weight_def)
next
  case False
  then have e: "claim_as gs w st =
      st\<lparr>groupCursor := groupCursor st + 1,
         calls := calls st @ [Describe (groupId (gs ! groupCursor st))],
         workers := (workers st)[w := AwaitDescribe (groupCursor st)]\<rparr>"
    by (simp add: claim_as_def claim_def Let_def)
  have "sum_list (map weight ((workers st)[w := AwaitDescribe (groupCursor st)])) + weight (workers st ! w)
        = sum_list (map weight (workers st)) + 2"
    using weight_update[OF assms(1), of "AwaitDescribe (groupCursor st)"] by (simp add: weight_def)
  then show ?thesis using False e by (simp add: remaining_def)
qed

lemma fail_group_remaining:
  assumes "w < length (workers st)" and "groupCursor st \<le> length gs"
  shows "remaining gs (fail_group coe dets pgs gs st w i e) + weight (workers st ! w) \<le> remaining gs st \<and>
         groupCursor (fail_group coe dets pgs gs st w i e) \<le> length gs"
proof (cases coe)
  case True
  let ?st1 = "st\<lparr>processedPages := write_pages (failure_page dets pgs (gs ! i) e) (gs ! i) (processedPages st)\<rparr>"
  have "fail_group coe dets pgs gs st w i e = claim_as gs w ?st1"
    using True by (simp add: fail_group_def Let_def)
  moreover have "remaining gs (claim_as gs w ?st1) + weight (workers ?st1 ! w) \<le> remaining gs ?st1 \<and>
         groupCursor (claim_as gs w ?st1) \<le> length gs"
    using assms by (intro claim_as_remaining) simp_all
  ultimately show ?thesis by (simp add: remaining_def)
next
  case False
  then have "fail_group coe dets pgs gs st w i e =
      st\<lparr>processedPages := write_pages (failure_page dets pgs (gs ! i) e) (gs ! i) (processedPages st),
         workers := (workers st)[w := Rejected e]\<rparr>"
    by (simp add: fail_group_def Let_def)
  then show ?thesis using weight_update[OF assms(1), of "Rejected e"] assms(2)
    by (simp add: remaining_def weight_def)
qed

lemma resume_remaining:
  assumes w: "w < length (workers st)" and p: "pending (workers st ! w)"
    and c: "groupCursor st \<le> length gs"
  shows "remaining gs (resume en coe dets pgs gs st w) < remaining gs st \<and>
         groupCursor (resume en coe dets pgs gs st w) \<le> length gs"
proof (cases "workers st ! w")
  case (AwaitDescribe i)
  show ?thesis
  proof (cases "describePageAndGenerate en (gs ! i)")
    case (Inl e)
    then have "resume en coe dets pgs gs st w = fail_group coe dets pgs gs st w i e"
      using w AwaitDescribe by (simp add: resume_def)
    then show ?thesis using fail_group_remaining[OF w c, of coe dets pgs i e] AwaitDescribe
      by (simp add: weight_def)
  next
    case (Inr r)
    then have "resume en coe dets pgs gs st w =
        st\<lparr>workers := (workers st)[w := AwaitTitle i r],
           calls := calls st @ [AddTitle (renderPath r) (titleText dets (gs ! i))]\<rparr>"
      using w AwaitDescribe by (simp add: resume_def)
    then show ?thesis using weight_update[OF w, of "AwaitTitle i r"] AwaitDescribe c
      by (simp add: remaining_def weight_def)
  qed
next
  case (AwaitTitle i r)
  show ?thesis
  proof (cases "addTitleToImage en (renderPath r) (titleText dets (gs ! i))")
    case (Inl e)
    then have "resume en coe dets pgs gs st w = fail_group coe dets pgs gs st w i e"
      using w AwaitTitle by (simp add: resume_def)
    then show ?thesis using fail_group_remaining[OF w c, of coe dets pgs i e] AwaitTitle
      by (simp add: weight_def)
  next
    case (Inr u)
    let ?st1 = "st\<lparr>processedPages := write_pages (success_page dets pgs (gs ! i) r) (gs ! i) (processedPages st)\<rparr>"
    have "resume en coe dets pgs gs st w = claim_as gs w ?st1"
      using w AwaitTitle Inr by (simp add: resume_def)
    moreover have "remaining gs (claim_as gs w ?st1) + weight (workers ?st1 ! w) \<le> remaining gs ?st1 \<and>
         groupCursor (claim_as gs w ?st1) \<le> length gs"
      using w c by (intro claim_as_remaining) simp_all
    ultimately show ?thesis using AwaitTitle by (simp add: remaining_def weight_def)
  qed
next
  case Finished
  then show ?thesis using p by (simp add: pending_def)
next
  case (Rejected e)
  then show ?thesis using p by (simp add: pending_def)
qed

lemma still_pending_next:
  assumes "settlement_of st = StillPending"
  shows "next_worker st < length (workers st) \<and> pending (workers st ! next_worker st)"
proof -
  from assms have nr: "first_rejection (workers st) = None"
    and nf: "\<not> list_all (\<lambda>w. w = Finished) (workers st)"
    by (auto simp: settlement_of_def split: option.splits if_splits)
  from nf obtain wk where wk: "wk \<in> set (workers st)" "wk \<noteq> Finished"
    by (auto simp: list_all_iff)
  have nrj: "\<forall>e. wk \<noteq> Rejected e" using nr wk first_rejection_None by blast
  have "pending wk"
  proof (cases wk)
    case Finished
    then show ?thesis using wk(2) by simp
  next
    case (Rejected e)
    then show ?thesis using nrj by simp
  qed (simp_all add: pending_def)
  with wk have ex: "\<exists>x \<in> set (workers st). \<not> \<not> pending x" by blast
  let ?tw = "takeWhile (\<lambda>wk. \<not> pending wk) (workers st)"
  have ne: "?tw \<noteq> workers st" using ex by (simp add: takeWhile_eq_all_conv)
  have "length ?tw \<noteq> length (workers st)"
  proof
    assume eq: "length ?tw = length (workers st)"
    have "?tw = take (length ?tw) (workers st)" by (rule takeWhile_eq_take)
    with eq have "?tw = workers st" by simp
    with ne show False by simp
  qed
  moreover have "length ?tw \<le> length (workers st)" by (rule length_takeWhile_le)
  ultimately have "length (takeWhile (\<lambda>wk. \<not> pending wk) (workers st)) < length (workers st)"
    by simp
  moreover from this have "\<not> \<not> pending (workers st ! length (takeWhile (\<lambda>wk. \<not> pending wk) (workers st)))"
    by (rule nth_length_takeWhile)
  ultimately show ?thesis by (simp add: next_worker_def)
qed

lemma drain_settles:
  "remaining gs st \<le> n \<Longrightarrow> groupCursor st \<le> length gs \<Longrightarrow>
   fst (pool_run en coe dets pgs gs (drain en coe dets pgs gs n st) st) \<noteq> StillPending"
proof (induction n arbitrary: st)
  case 0
  show ?case
  proof
    assume "fst (pool_run en coe dets pgs gs (drain en coe dets pgs gs 0 st) st) = StillPending"
    then have sp: "settlement_of st = StillPending" by simp
    from still_pending_next[OF sp] resume_remaining[of "next_worker st" st gs en coe dets pgs] "0.prems"
    show False by simp
  qed
next
  case (Suc n)
  show ?case
  proof (cases "settlement_of st \<noteq> StillPending")
    case True
    then show ?thesis by simp
  next
    case False
    then have sp: "settlement_of st = StillPending" by simp
    let ?w = "next_worker st"
    let ?st' = "resume en coe dets pgs gs st ?w"
    from still_pending_next[OF sp] have w: "?w < length (workers st)" and p: "pending (workers st ! ?w)"
      by simp_all
    from resume_remaining[OF w p Suc.prems(2), of en coe dets pgs]
    have "remaining gs ?st' \<le> n" and "groupCursor ?st' \<le> length gs"
      using Suc.prems(1) by simp_all
    then have "fst (pool_run en coe dets pgs gs (drain en coe dets pgs gs n ?st') ?st') \<noteq> StillPending"
      by (rule Suc.IH)
    then show ?thesis using sp by simp
  qed
qed

lemma pool_run_settled:
  "settlement_of st \<noteq> StillPending \<Longrightarrow> pool_run en coe dets pgs gs sched st = (settlement_of st, st)"
  by (cases sched) simp_all

lemma pool_run_append:
  "pool_run en coe dets pgs gs (a @ b) st =
     (if fst (pool_run en coe dets pgs gs a st) \<noteq> StillPending then pool_run en coe dets pgs gs a st
      else pool_run en coe dets pgs gs b (snd (pool_run en coe dets pgs gs a st)))"
proof (induction a arbitrary: st)
  case Nil
  then show ?case by (simp add: pool_run_settled)
next
  case (Cons w a)
  then show ?case by simp
qed

lemma pool_of_completes_from:
  "\<exists>sched'. fst (pool_of en opts dets pgs (sched @ sched') tr) \<noteq> StillPending"
proof -
  let ?gs = "make_groups dets pgs"
  let ?coe = "opt_continueOnError opts"
  let ?st = "init_pool pgs ?gs (min (effective_concurrency opts) (length ?gs)) tr"
  obtain s st1 where r: "pool_of en opts dets pgs sched tr = (s, st1)"
    by (cases "pool_of en opts dets pgs sched tr")
  then have r': "pool_run en ?coe dets pgs ?gs sched ?st = (s, st1)" by (simp add: pool_of_def)
  have "pool_inv en ?coe dets pgs ?gs st1" using pool_of_inv[OF r] by blast
  then have c: "groupCursor st1 \<le> length ?gs" unfolding pool_inv_def by blast
  let ?d = "drain en ?coe dets pgs ?gs (remaining ?gs st1) st1"
  have d: "fst (pool_run en ?coe dets pgs ?gs ?d st1) \<noteq> StillPending"
    using c by (intro drain_settles) simp_all
  have "fst (pool_run en ?coe dets pgs ?gs (sched @ ?d) ?st) \<noteq> StillPending"
    using d r' by (simp add: pool_run_append)
  then show ?thesis unfolding pool_of_def by blast
qed

lemma pool_of_fulfils_from:
  assumes "opt_continueOnError opts"
  shows "\<exists>sched' st. pool_of en opts dets pgs (sched @ sched') tr = (Fulfilled, st)"
proof -
  obtain sched' where s: "fst (pool_of en opts dets pgs (sched @ sched') tr) \<noteq> StillPending"
    using pool_of_completes_from by blast
  have "\<forall>e. fst (pool_of en opts dets pgs (sched @ sched') tr) \<noteq> RejectedWith e"
    using pool_of_never_rejects[OF assms] by blast
  with s have "fst (pool_of en opts dets pgs (sched @ sched') tr) = Fulfilled"
    by (cases "fst (pool_of en opts dets pgs (sched @ sched') tr)") simp_all
  then have "pool_of en opts dets pgs (sched @ sched') tr
             = (Fulfilled, snd (pool_of en opts dets pgs (sched @ sched') tr))"
    by (simp add: prod_eq_iff)
  then show ?thesis by blast
qed
section \<open>The claims\<close>

text \<open>
  C1, as stated, fails. With \<open>continueOnError\<close> off and the first group failing, the
  caller receives no report at all: \<open>pdfGenerate\<close> throws the error. At the moment the
  pool rejects, the slots of the pages \<open>2\<close>, \<open>3\<close> and \<open>4\<close> are unset.
\<close>

theorem slot_completeness_counterexample:
  "fst (pdfGenerate (failing_env 1) (Some ''plan.pdf'') scenario_options [0])
     = Threw (JsError ''no image returned'') \<and>
   fst (pool_of (failing_env 1) scenario_options scenario_detections scenario_pages [0] [])
     = RejectedWith (JsError ''no image returned'') \<and>
   map (\<lambda>slot. slot = None)
     (processedPages (snd (pool_of (failing_env 1) scenario_options scenario_detections scenario_pages [0] [])))
     = [False, False, True, True, True]"
  by code_simp

text \<open>
  C1, amended. For a non-empty page sequence: whenever the pool completes without a
  rejection, \<open>processedPages\<close> has one entry per page and every index in
  \<open>[0, pageCount)\<close> holds a PageResult; with \<open>continueOnError\<close> set the pool never
  rejects; when the pool rejects with an error (strict mode), \<open>pdfGenerate\<close> throws that
  error and returns no report, so the caller does not receive the array; and whatever
  the workers have done so far, the pool settles once its suspended workers have resumed
  often enough.
\<close>

theorem slot_completeness:
  "pgs \<noteq> [] \<longrightarrow>
     (pool_of en opts dets pgs sched tr = (Fulfilled, st) \<longrightarrow>
        length (processedPages st) = length pgs \<and>
        (\<forall>i < length pgs. processedPages st ! i \<noteq> None)) \<and>
     (opt_continueOnError opts \<longrightarrow> (\<forall>e. fst (pool_of en opts dets pgs sched tr) \<noteq> RejectedWith e)) \<and>
     (truthy pdfPath \<and>
      rendered en pdfPath opts = Inr pageImages \<and>
      \<not> effective_skipPages opts \<ge> int (length pageImages) \<and>
      pgs = js_slice pageImages (effective_skipPages opts) \<and>
      detect_pages en (opt_continueOnError opts) pgs []
        [Render (path_resolve en (the pdfPath)) (pagesDir_of en opts)] = (Inr dets, tr) \<and>
      pool_of en opts dets pgs sched tr = (RejectedWith e, st)
      \<longrightarrow> pdfGenerate en pdfPath opts sched = (Threw e, calls st)) \<and>
     (\<exists>sched'. fst (pool_of en opts dets pgs (sched @ sched') tr) \<noteq> StillPending)"
proof
  assume ne: "pgs \<noteq> []"
  have 1: "pool_of en opts dets pgs sched tr = (Fulfilled, st) \<longrightarrow>
        length (processedPages st) = length pgs \<and>
        (\<forall>i < length pgs. processedPages st ! i \<noteq> None)"
  proof
    assume run: "pool_of en opts dets pgs sched tr = (Fulfilled, st)"
    from pool_of_fulfilled_written[OF ne run]
    have l: "length (processedPages st) = length pgs"
      and w: "\<forall>i < length (make_groups dets pgs).
                group_written en dets pgs (make_groups dets pgs ! i) (processedPages st)"
      by simp_all
    have "\<forall>i < length pgs. processedPages st ! i \<noteq> None"
      using written_pages_set[OF covers_make_groups w] by blast
    with l show "length (processedPages st) = length pgs \<and>
        (\<forall>i < length pgs. processedPages st ! i \<noteq> None)" by blast
  qed
  have 2: "opt_continueOnError opts \<longrightarrow> (\<forall>e. fst (pool_of en opts dets pgs sched tr) \<noteq> RejectedWith e)"
    using pool_of_never_rejects by blast
  have 3: "truthy pdfPath \<and>
      rendered en pdfPath opts = Inr pageImages \<and>
      \<not> effective_skipPages opts \<ge> int (length pageImages) \<and>
      pgs = js_slice pageImages (effective_skipPages opts) \<and>
      detect_pages en (opt_continueOnError opts) pgs []
        [Render (path_resolve en (the pdfPath)) (pagesDir_of en opts)] = (Inr dets, tr) \<and>
      pool_of en opts dets pgs sched tr = (RejectedWith e, st)
      \<longrightarrow> pdfGenerate en pdfPath opts sched = (Threw e, calls st)"
  proof
    assume a: "truthy pdfPath \<and>
      rendered en pdfPath opts = Inr pageImages \<and>
      \<not> effective_skipPages opts \<ge> int (length pageImages) \<and>
      pgs = js_slice pageImages (effective_skipPages opts) \<and>
      detect_pages en (opt_continueOnError opts) pgs []
        [Render (path_resolve en (the pdfPath)) (pagesDir_of en opts)] = (Inr dets, tr) \<and>
      pool_of en opts dets pgs sched tr = (RejectedWith e, st)"
    then have t: "truthy pdfPath"
      and r: "pdfToPngs en (path_resolve en (the pdfPath)) (resolve_or en (opt_pagesDir opts) ''pdf-pages'')
                (case opt_skipConversionPages opts of Some n \<Rightarrow> n | None \<Rightarrow> 4) = Inr pageImages"
      and s: "\<not> effective_skipPages opts \<ge> int (length pageImages)"
      and pg: "pgs = js_slice pageImages (effective_skipPages opts)"
      and d: "detect_pages en (opt_continueOnError opts) (js_slice pageImages (effective_skipPages opts)) []
                [Render (path_resolve en (the pdfPath)) (resolve_or en (opt_pagesDir opts) ''pdf-pages'')]
              = (Inr dets, tr)"
      and p: "pool_of en opts dets (js_slice pageImages (effective_skipPages opts)) sched tr = (RejectedWith e, st)"
      by (auto simp: rendered_def pagesDir_of_def)
    have sl: "js_slice pageImages (effective_skipPages opts) \<noteq> []" using ne pg by simp
    have "pdfGenerate en pdfPath opts sched =
            process_pages en opts sched (resolve_or en (opt_pagesDir opts) ''pdf-pages'')
              (resolve_or en (opt_outputDir opts) ''generated'') pageImages
              (js_slice pageImages (effective_skipPages opts)) dets tr"
      using pdfGenerate_processing[OF t r s sl d] .
    then show "pdfGenerate en pdfPath opts sched = (Threw e, calls st)"
      using p by (simp add: process_pages_pool)
  qed
  have 4: "\<exists>sched'. fst (pool_of en opts dets pgs (sched @ sched') tr) \<noteq> StillPending"
    by (rule pool_of_completes_from)
  from 1 2 3 4 show "(pool_of en opts dets pgs sched tr = (Fulfilled, st) \<longrightarrow>
        length (processedPages st) = length pgs \<and>
        (\<forall>i < length pgs. processedPages st ! i \<noteq> None)) \<and>
     (opt_continueOnError opts \<longrightarrow> (\<forall>e. fst (pool_of en opts dets pgs sched tr) \<noteq> RejectedWith e)) \<and>
     (truthy pdfPath \<and>
      rendered en pdfPath opts = Inr pageImages \<and>
      \<not> effective_skipPages opts \<ge> int (length pageImages) \<and>
      pgs = js_slice pageImages (effective_skipPages opts) \<and>
      detect_pages en (opt_continueOnError opts) pgs []
        [Render (path_resolve en (the pdfPath)) (pagesDir_of en opts)] = (Inr dets, tr) \<and>
      pool_of en opts dets pgs sched tr = (RejectedWith e, st)
      \<longrightarrow> pdfGenerate en pdfPath opts sched = (Threw e, calls st)) \<and>
     (\<exists>sched'. fst (pool_of en opts dets pgs (sched @ sched') tr) \<noteq> StillPending)"
    by blast
qed

theorem slot_completeness_witness:
  "scenario_pages \<noteq> [] \<and>
   fst (pool_of scenario_env scenario_options scenario_detections scenario_pages scenario_schedule []) = Fulfilled \<and>
   length (processedPages (snd (pool_of scenario_env scenario_options scenario_detections scenario_pages scenario_schedule []))) = 5 \<and>
   map (\<lambda>slot. slot = None)
     (processedPages (snd (pool_of scenario_env scenario_options scenario_detections scenario_pages scenario_schedule [])))
     = [False, False, False, False, False] \<and>
   fst (pool_of (failing_env 1) scenario_options scenario_detections scenario_pages [0]
          (Render ''plan.pdf'' ''/work/pdf-pages'' # map Identify scenario_pages))
     = RejectedWith (JsError ''no image returned'') \<and>
   fst (pdfGenerate (failing_env 1) (Some ''plan.pdf'') scenario_options [0])
     = Threw (JsError ''no image returned'')"
proof -
  let ?en = "failing_env 1" and ?o = scenario_options
  let ?tr = "Render ''plan.pdf'' ''/work/pdf-pages'' # map Identify scenario_pages"
  let ?r = "pool_of scenario_env scenario_options scenario_detections scenario_pages scenario_schedule []"
  let ?f = "pool_of ?en ?o scenario_detections scenario_pages [0] ?tr"
  have a: "scenario_pages \<noteq> []" by (simp add: scenario_pages_def)
  have b: "fst ?r = Fulfilled" by code_simp
  then have c: "?r = (Fulfilled, snd ?r)" by (simp add: prod_eq_iff)
  have d: "fst ?f = RejectedWith (JsError ''no image returned'')" by code_simp
  then have e: "?f = (RejectedWith (JsError ''no image returned''), snd ?f)" by (simp add: prod_eq_iff)
  have m: "map (\<lambda>slot. slot = None) (processedPages (snd ?r)) = [False, False, False, False, False]"
    by code_simp
  have paths: "pagesDir_of ?en ?o = ''/work/pdf-pages'' \<and>
               path_resolve ?en (the (Some ''plan.pdf'')) = ''plan.pdf''"
    by code_simp
  have t: "truthy (Some ''plan.pdf'')" by (simp add: truthy_def)
  have rn: "rendered ?en (Some ''plan.pdf'') ?o = Inr scenario_pages"
    by (simp add: rendered_def failing_env_def scenario_env_def)
  have s: "\<not> effective_skipPages ?o \<ge> int (length scenario_pages)"
    by (simp add: effective_skipPages_def Number_isInteger_def scenario_options_def scenario_pages_def)
  have sl: "scenario_pages = js_slice scenario_pages (effective_skipPages ?o)"
    by (simp add: js_slice_def effective_skipPages_def Number_isInteger_def scenario_options_def scenario_pages_def)
  have dt: "detect_pages ?en (opt_continueOnError ?o) scenario_pages []
             [Render (path_resolve ?en (the (Some ''plan.pdf''))) (pagesDir_of ?en ?o)]
           = (Inr scenario_detections, ?tr)"
    by code_simp
  from slot_completeness[where pgs = scenario_pages and en = scenario_env and opts = scenario_options
         and dets = scenario_detections and sched = scenario_schedule and tr = "[]" and st = "snd ?r"] a c
  have 1: "length (processedPages (snd ?r)) = length scenario_pages" by blast
  from slot_completeness[where pgs = scenario_pages and en = ?en and opts = ?o
         and dets = scenario_detections and sched = "[0]" and tr = ?tr and st = "snd ?f"
         and e = "JsError ''no image returned''" and pdfPath = "Some ''plan.pdf''"
         and pageImages = scenario_pages] a t rn s sl dt e
  have 2: "pdfGenerate ?en (Some ''plan.pdf'') ?o [0] = (Threw (JsError ''no image returned''), calls (snd ?f))"
    by blast
  show ?thesis using a b d m 1 2 by (simp add: scenario_pages_def)
qed
text \<open>
  C2. For detections and pages of any length \<open>N\<close> (the loop runs to
  \<open>pagesToProcess.length\<close>, and the detection pass stores one detection per page), the
  page indices of the groups, concatenated in group order, are exactly \<open>0, 1, .., N - 1\<close>;
  every group holds a non-empty contiguous ascending range of indices; and the groups
  are ordered by their first index.
\<close>

theorem grouping_partition:
  "concat (map pageIndices (make_groups dets pgs)) = [0..<length pgs] \<and>
   (\<forall>g \<in> set (make_groups dets pgs). \<exists>a b. a < b \<and> pageIndices g = [a..<b]) \<and>
   sorted_wrt (\<lambda>g h. first_index g < first_index h) (make_groups dets pgs)"
proof -
  have "\<forall>g \<in> set (make_groups dets pgs). \<exists>a b. a < b \<and> pageIndices g = [a..<b]"
  proof
    fix g assume "g \<in> set (make_groups dets pgs)"
    then obtain a b where "group_spans dets pgs g a b"
      using make_groups_spans[of dets pgs] by blast
    then have "a < b \<and> pageIndices g = [a..<b]"
      by (simp add: group_spans_def run_ok_def)
    then show "\<exists>a b. a < b \<and> pageIndices g = [a..<b]" by blast
  qed
  then show ?thesis using make_groups_spans[of dets pgs] by blast
qed

theorem grouping_partition_witness:
  "map pageIndices (make_groups scenario_detections scenario_pages) = [[0, 1], [2], [3], [4]] \<and>
   concat (map pageIndices (make_groups scenario_detections scenario_pages)) = [0..<length scenario_pages] \<and>
   (\<exists>a b. a < b \<and> pageIndices (make_groups scenario_detections scenario_pages ! 0) = [a..<b]) \<and>
   sorted_wrt (\<lambda>g h. first_index g < first_index h) (make_groups scenario_detections scenario_pages)"
proof -
  have m: "map pageIndices (make_groups scenario_detections scenario_pages) = [[0, 1], [2], [3], [4]]"
    by (simp add: scenario_groups)
  have "make_groups scenario_detections scenario_pages ! 0
          \<in> set (make_groups scenario_detections scenario_pages)"
    by (simp add: scenario_groups)
  then show ?thesis
    using m grouping_partition[of scenario_detections scenario_pages] by blast
qed

text \<open>
  C3, as stated, fails: two neighbouring pages whose normalized name is the empty
  string (non-null, and equal) are not grouped.
\<close>

theorem greedy_contiguity_counterexample:
  "normalized (dash_detections ! 0) \<noteq> None \<and>
   normalized (dash_detections ! 0) = normalized (dash_detections ! 1) \<and>
   \<not> same_group (make_groups dash_detections dash_pages) 0 1"
  by code_simp

text \<open>
  C3, amended. If the normalized name of page \<open>i\<close> is truthy (neither null nor empty)
  and equals that of page \<open>i + 1\<close>, the two pages are in one group. A page whose
  normalized name is null or empty is a group of its own and shares a group with no
  other page.
\<close>

theorem greedy_contiguity:
  "(Suc i < length pgs \<and> truthy (field_at dets normalized i) \<and>
      field_at dets normalized i = field_at dets normalized (Suc i)
      \<longrightarrow> same_group (make_groups dets pgs) i (Suc i)) \<and>
   (i < length pgs \<and> \<not> truthy (field_at dets normalized i)
      \<longrightarrow> (\<exists>g \<in> set (make_groups dets pgs). pageIndices g = [i]) \<and>
          (\<forall>j. same_group (make_groups dets pgs) i j \<longrightarrow> j = i))"
  using adjacent_same_group[of i pgs dets] falsy_singleton[of i pgs dets] by blast

theorem greedy_contiguity_witness:
  "Suc 0 < length scenario_pages \<and>
   truthy (field_at scenario_detections normalized 0) \<and>
   field_at scenario_detections normalized 0 = field_at scenario_detections normalized (Suc 0) \<and>
   same_group (make_groups scenario_detections scenario_pages) 0 (Suc 0) \<and>
   3 < length scenario_pages \<and>
   \<not> truthy (field_at scenario_detections normalized 3) \<and>
   (\<exists>g. g \<in> set (make_groups scenario_detections scenario_pages) \<and> pageIndices g = [3]) \<and>
   \<not> same_group (make_groups scenario_detections scenario_pages) 3 4"
proof -
  have a: "Suc 0 < length scenario_pages \<and>
           truthy (field_at scenario_detections normalized 0) \<and>
           field_at scenario_detections normalized 0 = field_at scenario_detections normalized (Suc 0)"
    by code_simp
  have b: "3 < length scenario_pages \<and> \<not> truthy (field_at scenario_detections normalized 3)"
    by code_simp
  from a greedy_contiguity[of 0 scenario_pages scenario_detections]
  have c: "same_group (make_groups scenario_detections scenario_pages) 0 (Suc 0)" by blast
  from b greedy_contiguity[of 3 scenario_pages scenario_detections]
  have d: "(\<exists>g \<in> set (make_groups scenario_detections scenario_pages). pageIndices g = [3]) \<and>
           (\<forall>j. same_group (make_groups scenario_detections scenario_pages) 3 j \<longrightarrow> j = 3)"
    by blast
  then have "\<not> same_group (make_groups scenario_detections scenario_pages) 3 4" by auto
  with a b c d show ?thesis by blast
qed







text \<open>
  C6. With \<open>continueOnError\<close> set, whatever the workers have done so far, the pool
  completes, without a rejection, once its suspended workers have resumed often enough.
  Let the pipeline of exactly one group, the one at position \<open>k\<close>, fail with error \<open>e\<close>, and
  compare with an environment that answers the same for every other group. When the
  pool has completed, every page \<open>p\<close> of the failed group holds a failure result: its
  \<open>error\<close> is \<open>e\<close> and its \<open>errorMessage\<close> the text of \<open>e\<close>, its \<open>groupId\<close> is that of the
  group, \<open>k + 1\<close>, its \<open>groupedWith\<close> lists the images of the other pages of the group in
  order, its \<open>pageImage\<close> is the image of \<open>p\<close>, and it has neither description nor render
  path. Every page of every other group holds a success result, with no error, the
  description and the render path its group's pipeline produced, and the \<open>groupId\<close> and
  siblings of its own group; it is the same result as in the run without the failure,
  whatever the two schedules were.
\<close>

theorem failure_isolation:
  "(opt_continueOnError opts \<longrightarrow>
      (\<exists>sched' st'. pool_of en opts dets pgs (sched @ sched') tr = (Fulfilled, st'))) \<and>
   (opt_continueOnError opts \<and> pgs \<noteq> [] \<and> k < length (make_groups dets pgs) \<and>
   group_outcome en dets (make_groups dets pgs ! k) = Inl e \<and>
   (\<forall>j < length (make_groups dets pgs). j \<noteq> k \<longrightarrow>
      (\<exists>r. group_outcome en dets (make_groups dets pgs ! j) = Inr r) \<and>
      group_outcome en0 dets (make_groups dets pgs ! j) = group_outcome en dets (make_groups dets pgs ! j)) \<and>
   pool_of en opts dets pgs sched tr = (Fulfilled, st) \<and>
   pool_of en0 opts dets pgs sched0 tr0 = (Fulfilled, st0)
   \<longrightarrow>
     groupId (make_groups dets pgs ! k) = k + 1 \<and>
     (\<forall>p \<in> set (pageIndices (make_groups dets pgs ! k)).
        processedPages st ! p =
          Some \<lparr>pr_pageImage = pgs ! p,
                groupedWith = map (\<lambda>q. pgs ! q) (filter (\<lambda>q. q \<noteq> p) (pageIndices (make_groups dets pgs ! k))),
                pr_groupId = k + 1,
                pr_roomName = js_or (field_at dets roomName p) None,
                roomHeadingRaw = js_or (field_at dets rawText p) None,
                pr_description = None,
                pr_renderPath = None,
                pr_error = Some e,
                errorMessage = Some (if message e = [] then ''Error'' else message e)\<rparr>) \<and>
     (\<forall>j < length (make_groups dets pgs). j \<noteq> k \<longrightarrow>
        (\<forall>p \<in> set (pageIndices (make_groups dets pgs ! j)).
           (\<exists>r. group_outcome en dets (make_groups dets pgs ! j) = Inr r \<and>
                processedPages st ! p =
                  Some \<lparr>pr_pageImage = pgs ! p,
                        groupedWith = map (\<lambda>q. pgs ! q) (filter (\<lambda>q. q \<noteq> p) (pageIndices (make_groups dets pgs ! j))),
                        pr_groupId = j + 1,
                        pr_roomName = js_or (field_at dets roomName p) None,
                        roomHeadingRaw = js_or (field_at dets rawText p) None,
                        pr_description = Some (description r),
                        pr_renderPath = Some (renderPath r),
                        pr_error = None,
                        errorMessage = None\<rparr>) \<and>
           processedPages st ! p = processedPages st0 ! p)))"
proof (intro conjI impI)
  assume "opt_continueOnError opts"
  then show "\<exists>sched' st'. pool_of en opts dets pgs (sched @ sched') tr = (Fulfilled, st')"
    by (rule pool_of_fulfils_from)
next
  let ?gs = "make_groups dets pgs"
  assume a: "opt_continueOnError opts \<and> pgs \<noteq> [] \<and> k < length (?gs) \<and>
   group_outcome en dets (?gs ! k) = Inl e \<and>
   (\<forall>j < length (?gs). j \<noteq> k \<longrightarrow>
      (\<exists>r. group_outcome en dets (?gs ! j) = Inr r) \<and>
      group_outcome en0 dets (?gs ! j) = group_outcome en dets (?gs ! j)) \<and>
   pool_of en opts dets pgs sched tr = (Fulfilled, st) \<and>
   pool_of en0 opts dets pgs sched0 tr0 = (Fulfilled, st0)"
  then have ne: "pgs \<noteq> []" and k: "k < length ?gs"
    and fk: "group_outcome en dets (?gs ! k) = Inl e"
    and others: "\<forall>j < length ?gs. j \<noteq> k \<longrightarrow>
      (\<exists>r. group_outcome en dets (?gs ! j) = Inr r) \<and>
      group_outcome en0 dets (?gs ! j) = group_outcome en dets (?gs ! j)"
    and run: "pool_of en opts dets pgs sched tr = (Fulfilled, st)"
    and run0: "pool_of en0 opts dets pgs sched0 tr0 = (Fulfilled, st0)"
    by blast+
  have w: "\<forall>i < length ?gs. group_written en dets pgs (?gs ! i) (processedPages st)"
    using pool_of_fulfilled_written[OF ne run] by blast
  have w0: "\<forall>i < length ?gs. group_written en0 dets pgs (?gs ! i) (processedPages st0)"
    using pool_of_fulfilled_written[OF ne run0] by blast
  have 0: "groupId (?gs ! k) = k + 1" using make_groups_nth[OF k] by blast
  have 1: "\<forall>p \<in> set (pageIndices (?gs ! k)).
        processedPages st ! p =
          Some \<lparr>pr_pageImage = pgs ! p,
                groupedWith = map (\<lambda>q. pgs ! q) (filter (\<lambda>q. q \<noteq> p) (pageIndices (?gs ! k))),
                pr_groupId = k + 1,
                pr_roomName = js_or (field_at dets roomName p) None,
                roomHeadingRaw = js_or (field_at dets rawText p) None,
                pr_description = None,
                pr_renderPath = None,
                pr_error = Some e,
                errorMessage = Some (if message e = [] then ''Error'' else message e)\<rparr>"
  proof
    fix p assume p: "p \<in> set (pageIndices (?gs ! k))"
    from group_page_fields[OF k p] obtain li where li: "li < length (pageIndices (?gs ! k))"
      and n: "pageIndices (?gs ! k) ! li = p"
      and pa: "page_at pgs p = pgs ! p"
      and id: "groupId (?gs ! k) = k + 1"
      and co: "companions (pages (?gs ! k)) li =
                 map (\<lambda>q. pgs ! q) (filter (\<lambda>q. q \<noteq> p) (pageIndices (?gs ! k)))"
      by blast
    have "processedPages st ! (pageIndices (?gs ! k) ! li) =
            Some (page_of en dets pgs (?gs ! k) (pageIndices (?gs ! k) ! li) li)"
      using w k li unfolding group_written_def by blast
    then have "processedPages st ! p = Some (failure_page dets pgs (?gs ! k) e p li)"
      using n page_of_failure[OF fk, of pgs] by simp
    then show "processedPages st ! p =
          Some \<lparr>pr_pageImage = pgs ! p,
                groupedWith = map (\<lambda>q. pgs ! q) (filter (\<lambda>q. q \<noteq> p) (pageIndices (?gs ! k))),
                pr_groupId = k + 1,
                pr_roomName = js_or (field_at dets roomName p) None,
                roomHeadingRaw = js_or (field_at dets rawText p) None,
                pr_description = None,
                pr_renderPath = None,
                pr_error = Some e,
                errorMessage = Some (if message e = [] then ''Error'' else message e)\<rparr>"
      using pa id co by (simp add: failure_page_def error_text_def)
  qed
  have 2: "\<forall>j < length ?gs. j \<noteq> k \<longrightarrow>
        (\<forall>p \<in> set (pageIndices (?gs ! j)).
           (\<exists>r. group_outcome en dets (?gs ! j) = Inr r \<and>
                processedPages st ! p =
                  Some \<lparr>pr_pageImage = pgs ! p,
                        groupedWith = map (\<lambda>q. pgs ! q) (filter (\<lambda>q. q \<noteq> p) (pageIndices (?gs ! j))),
                        pr_groupId = j + 1,
                        pr_roomName = js_or (field_at dets roomName p) None,
                        roomHeadingRaw = js_or (field_at dets rawText p) None,
                        pr_description = Some (description r),
                        pr_renderPath = Some (renderPath r),
                        pr_error = None,
                        errorMessage = None\<rparr>) \<and>
           processedPages st ! p = processedPages st0 ! p)"
  proof (intro allI impI ballI)
    fix j p
    assume j: "j < length ?gs" and jk: "j \<noteq> k" and p: "p \<in> set (pageIndices (?gs ! j))"
    from group_page_fields[OF j p] obtain li where li: "li < length (pageIndices (?gs ! j))"
      and n: "pageIndices (?gs ! j) ! li = p"
      and pa: "page_at pgs p = pgs ! p"
      and id: "groupId (?gs ! j) = j + 1"
      and co: "companions (pages (?gs ! j)) li =
                 map (\<lambda>q. pgs ! q) (filter (\<lambda>q. q \<noteq> p) (pageIndices (?gs ! j)))"
      by blast
    from others j jk obtain r where r: "group_outcome en dets (?gs ! j) = Inr r"
      and same: "group_outcome en0 dets (?gs ! j) = group_outcome en dets (?gs ! j)"
      by blast
    have "processedPages st ! (pageIndices (?gs ! j) ! li) =
            Some (page_of en dets pgs (?gs ! j) (pageIndices (?gs ! j) ! li) li)"
      using w j li unfolding group_written_def by blast
    then have x: "processedPages st ! p = Some (page_of en dets pgs (?gs ! j) p li)"
      using n by simp
    have "processedPages st0 ! (pageIndices (?gs ! j) ! li) =
            Some (page_of en0 dets pgs (?gs ! j) (pageIndices (?gs ! j) ! li) li)"
      using w0 j li unfolding group_written_def by blast
    then have x0: "processedPages st0 ! p = Some (page_of en0 dets pgs (?gs ! j) p li)"
      using n by simp
    have e0: "page_of en0 dets pgs (?gs ! j) p li = page_of en dets pgs (?gs ! j) p li"
      using same by (simp add: page_of_def)
    have e1: "page_of en dets pgs (?gs ! j) p li = success_page dets pgs (?gs ! j) r p li"
      using page_of_success[OF r, of pgs] by simp
    have y: "processedPages st ! p =
                  Some \<lparr>pr_pageImage = pgs ! p,
                        groupedWith = map (\<lambda>q. pgs ! q) (filter (\<lambda>q. q \<noteq> p) (pageIndices (?gs ! j))),
                        pr_groupId = j + 1,
                        pr_roomName = js_or (field_at dets roomName p) None,
                        roomHeadingRaw = js_or (field_at dets rawText p) None,
                        pr_description = Some (description r),
                        pr_renderPath = Some (renderPath r),
                        pr_error = None,
                        errorMessage = None\<rparr>"
      using x e1 pa id co by (simp add: success_page_def)
    have z: "processedPages st ! p = processedPages st0 ! p"
      using x x0 e0 by simp
    show "(\<exists>r. group_outcome en dets (?gs ! j) = Inr r \<and>
                processedPages st ! p =
                  Some \<lparr>pr_pageImage = pgs ! p,
                        groupedWith = map (\<lambda>q. pgs ! q) (filter (\<lambda>q. q \<noteq> p) (pageIndices (?gs ! j))),
                        pr_groupId = j + 1,
                        pr_roomName = js_or (field_at dets roomName p) None,
                        roomHeadingRaw = js_or (field_at dets rawText p) None,
                        pr_description = Some (description r),
                        pr_renderPath = Some (renderPath r),
                        pr_error = None,
                        errorMessage = None\<rparr>) \<and>
           processedPages st ! p = processedPages st0 ! p"
      using r y z by blast
  qed
  from 0 show "groupId (?gs ! k) = k + 1" .
  from 1 show "\<forall>p \<in> set (pageIndices (?gs ! k)).
        processedPages st ! p =
          Some \<lparr>pr_pageImage = pgs ! p,
                groupedWith = map (\<lambda>q. pgs ! q) (filter (\<lambda>q. q \<noteq> p) (pageIndices (?gs ! k))),
                pr_groupId = k + 1,
                pr_roomName = js_or (field_at dets roomName p) None,
                roomHeadingRaw = js_or (field_at dets rawText p) None,
                pr_description = None,
                pr_renderPath = None,
                pr_error = Some e,
                errorMessage = Some (if message e = [] then ''Error'' else message e)\<rparr>" .
  from 2 show "\<forall>j < length ?gs. j \<noteq> k \<longrightarrow>
        (\<forall>p \<in> set (pageIndices (?gs ! j)).
           (\<exists>r. group_outcome en dets (?gs ! j) = Inr r \<and>
                processedPages st ! p =
                  Some \<lparr>pr_pageImage = pgs ! p,
                        groupedWith = map (\<lambda>q. pgs ! q) (filter (\<lambda>q. q \<noteq> p) (pageIndices (?gs ! j))),
                        pr_groupId = j + 1,
                        pr_roomName = js_or (field_at dets roomName p) None,
                        roomHeadingRaw = js_or (field_at dets rawText p) None,
                        pr_description = Some (description r),
                        pr_renderPath = Some (renderPath r),
                        pr_error = None,
                        errorMessage = None\<rparr>) \<and>
           processedPages st ! p = processedPages st0 ! p)" .
qed

theorem failure_isolation_witness:
  "opt_continueOnError continue_options \<and>
   group_outcome (failing_env 1) scenario_detections (make_groups scenario_detections scenario_pages ! 0)
     = Inl (JsError ''no image returned'') \<and>
   fst (pool_of (failing_env 1) continue_options scenario_detections scenario_pages [0, 0, 0, 1, 1, 1, 0, 0] []) = Fulfilled \<and>
   fst (pool_of scenario_env continue_options scenario_detections scenario_pages [1, 1, 0, 0, 1, 1, 0, 0] []) = Fulfilled \<and>
   processedPages (snd (pool_of (failing_env 1) continue_options scenario_detections scenario_pages [0, 0, 0, 1, 1, 1, 0, 0] [])) ! 0
     = Some \<lparr>pr_pageImage = ''page-1.png'', groupedWith = [''page-2.png''], pr_groupId = 1,
              pr_roomName = Some ''Kitchen'', roomHeadingRaw = Some ''Kitchen'',
              pr_description = None, pr_renderPath = None,
              pr_error = Some (JsError ''no image returned''),
              errorMessage = Some ''no image returned''\<rparr> \<and>
   processedPages (snd (pool_of (failing_env 1) continue_options scenario_detections scenario_pages [0, 0, 0, 1, 1, 1, 0, 0] [])) ! 1
     = Some \<lparr>pr_pageImage = ''page-2.png'', groupedWith = [''page-1.png''], pr_groupId = 1,
              pr_roomName = Some ''Kitchen'', roomHeadingRaw = Some ''KITCHEN'',
              pr_description = None, pr_renderPath = None,
              pr_error = Some (JsError ''no image returned''),
              errorMessage = Some ''no image returned''\<rparr> \<and>
   processedPages (snd (pool_of (failing_env 1) continue_options scenario_detections scenario_pages [0, 0, 0, 1, 1, 1, 0, 0] [])) ! 2
     = processedPages (snd (pool_of scenario_env continue_options scenario_detections scenario_pages [1, 1, 0, 0, 1, 1, 0, 0] [])) ! 2 \<and>
   map (map_option pr_error)
     (processedPages (snd (pool_of (failing_env 1) continue_options scenario_detections scenario_pages [0, 0, 0, 1, 1, 1, 0, 0] [])))
     = [Some (Some (JsError ''no image returned'')), Some (Some (JsError ''no image returned'')),
        Some None, Some None, Some None]"
proof -
  let ?en = "failing_env 1"
  let ?e = "JsError ''no image returned''"
  let ?D = scenario_detections and ?P = scenario_pages
  let ?gs = "make_groups scenario_detections scenario_pages"
  let ?run = "pool_of ?en continue_options ?D ?P [0, 0, 0, 1, 1, 1, 0, 0] []"
  let ?plain = "pool_of scenario_env continue_options ?D ?P [1, 1, 0, 0, 1, 1, 0, 0] []"
  have c: "opt_continueOnError continue_options" by (simp add: continue_options_def)
  have ne: "?P \<noteq> []" by (simp add: scenario_pages_def)
  have len: "length ?gs = 4" by (simp add: scenario_groups)
  have fk: "group_outcome ?en ?D (?gs ! 0) = Inl ?e" by code_simp
  have o1: "(\<exists>r. group_outcome ?en ?D (?gs ! 1) = Inr r) \<and>
            group_outcome scenario_env ?D (?gs ! 1) = group_outcome ?en ?D (?gs ! 1)"
    by (simp add: scenario_groups group_outcome_def failing_env_def scenario_env_def)
  have o2: "(\<exists>r. group_outcome ?en ?D (?gs ! 2) = Inr r) \<and>
            group_outcome scenario_env ?D (?gs ! 2) = group_outcome ?en ?D (?gs ! 2)"
    by (simp add: scenario_groups group_outcome_def failing_env_def scenario_env_def)
  have o3: "(\<exists>r. group_outcome ?en ?D (?gs ! 3) = Inr r) \<and>
            group_outcome scenario_env ?D (?gs ! 3) = group_outcome ?en ?D (?gs ! 3)"
    by (simp add: scenario_groups group_outcome_def failing_env_def scenario_env_def)
  have others: "\<forall>j < length ?gs. j \<noteq> 0 \<longrightarrow>
      (\<exists>r. group_outcome ?en ?D (?gs ! j) = Inr r) \<and>
      group_outcome scenario_env ?D (?gs ! j) = group_outcome ?en ?D (?gs ! j)"
  proof (intro allI impI)
    fix j assume "j < length ?gs" and "j \<noteq> 0"
    then have "j = 1 \<or> j = 2 \<or> j = 3" using len by arith
    then show "(\<exists>r. group_outcome ?en ?D (?gs ! j) = Inr r) \<and>
      group_outcome scenario_env ?D (?gs ! j) = group_outcome ?en ?D (?gs ! j)"
      using o1 o2 o3 by blast
  qed
  have f: "fst ?run = Fulfilled" by code_simp
  have f0: "fst ?plain = Fulfilled" by code_simp
  have r: "?run = (Fulfilled, snd ?run)" using f by (simp add: prod_eq_iff)
  have r0: "?plain = (Fulfilled, snd ?plain)" using f0 by (simp add: prod_eq_iff)
  have k: "0 < length ?gs" using len by simp
  have idx: "pageIndices (?gs ! 0) = [0, 1] \<and> pageIndices (?gs ! 1) = [2]"
    by (simp add: scenario_groups)
  have m: "map (map_option pr_error) (processedPages (snd ?run))
             = [Some (Some ?e), Some (Some ?e), Some None, Some None, Some None]"
    by code_simp
  have main: "groupId (?gs ! 0) = 0 + 1 \<and>
     (\<forall>p \<in> set (pageIndices (?gs ! 0)).
        processedPages (snd ?run) ! p =
          Some \<lparr>pr_pageImage = ?P ! p,
                groupedWith = map (\<lambda>q. ?P ! q) (filter (\<lambda>q. q \<noteq> p) (pageIndices (?gs ! 0))),
                pr_groupId = 0 + 1,
                pr_roomName = js_or (field_at ?D roomName p) None,
                roomHeadingRaw = js_or (field_at ?D rawText p) None,
                pr_description = None,
                pr_renderPath = None,
                pr_error = Some ?e,
                errorMessage = Some (if message ?e = [] then ''Error'' else message ?e)\<rparr>) \<and>
     (\<forall>j < length ?gs. j \<noteq> 0 \<longrightarrow>
        (\<forall>p \<in> set (pageIndices (?gs ! j)).
           processedPages (snd ?run) ! p = processedPages (snd ?plain) ! p))"
    using failure_isolation[where opts = continue_options and pgs = ?P and dets = ?D and k = 0
            and en = ?en and e = ?e and en0 = scenario_env and sched = "[0, 0, 0, 1, 1, 1, 0, 0]" and tr = "[]"
            and st = "snd ?run" and sched0 = "[1, 1, 0, 0, 1, 1, 0, 0]" and ?tr0.0 = "[]" and ?st0.0 = "snd ?plain"]
          c ne k fk others r r0
    by blast
  have fields: "js_or (field_at ?D roomName 0) None = Some ''Kitchen'' \<and>
                js_or (field_at ?D rawText 0) None = Some ''Kitchen'' \<and>
                js_or (field_at ?D roomName 1) None = Some ''Kitchen'' \<and>
                js_or (field_at ?D rawText 1) None = Some ''KITCHEN''"
    by code_simp
  from main idx fields have 1: "processedPages (snd ?run) ! 0 =
      Some \<lparr>pr_pageImage = ''page-1.png'', groupedWith = [''page-2.png''], pr_groupId = 1,
              pr_roomName = Some ''Kitchen'', roomHeadingRaw = Some ''Kitchen'',
              pr_description = None, pr_renderPath = None,
              pr_error = Some ?e, errorMessage = Some ''no image returned''\<rparr>"
    by (simp add: scenario_pages_def)
  from main idx fields have 2: "processedPages (snd ?run) ! 1 =
      Some \<lparr>pr_pageImage = ''page-2.png'', groupedWith = [''page-1.png''], pr_groupId = 1,
              pr_roomName = Some ''Kitchen'', roomHeadingRaw = Some ''KITCHEN'',
              pr_description = None, pr_renderPath = None,
              pr_error = Some ?e, errorMessage = Some ''no image returned''\<rparr>"
    by (simp add: scenario_pages_def)
  from main have "\<forall>j < length ?gs. j \<noteq> 0 \<longrightarrow>
        (\<forall>p \<in> set (pageIndices (?gs ! j)).
           processedPages (snd ?run) ! p = processedPages (snd ?plain) ! p)"
    by blast
  moreover have "(1 :: nat) < length ?gs" and "(1 :: nat) \<noteq> 0" using len by simp_all
  ultimately have "\<forall>p \<in> set (pageIndices (?gs ! 1)).
           processedPages (snd ?run) ! p = processedPages (snd ?plain) ! p"
    by blast
  then have 3: "processedPages (snd ?run) ! 2 = processedPages (snd ?plain) ! 2"
    using idx by simp
  show ?thesis using c fk f f0 1 2 3 m by blast
qed
text \<open>
  C7, as stated, fails: for a page whose cleaned heading is \<open>Kitchen Plan\<close> and whose raw
  OCR text is \<open>KITCHEN PLAN 1\<close>, the group's \<open>roomName\<close> is the cleaned heading.
\<close>

theorem group_label_counterexample:
  "rawText plan_heading = Some ''KITCHEN PLAN 1'' \<and>
   map group_roomName (make_groups [mk_detection plan_heading ''page-1.png''] [''page-1.png''])
     = [Some ''Kitchen Plan'']"
  by code_simp

text \<open>
  C7, amended. The \<open>roomName\<close> of a group opened at index \<open>i\<close> is the cleaned name
  \<open>detections[i].roomName\<close> when that is neither null nor empty, else the raw OCR text
  \<open>detections[i].rawText\<close> when that is neither null nor empty, else null. The title
  overlaid on the group's render is the trimmed raw OCR text of \<open>detections[i]\<close> when
  that is not empty, and otherwise the trimmed \<open>roomName\<close> of the group when that is not
  empty.
\<close>

theorem group_label:
  "g \<in> set (make_groups dets pgs) \<longrightarrow>
     group_roomName g =
       (if truthy (field_at dets roomName (first_index g)) then field_at dets roomName (first_index g)
        else if truthy (field_at dets rawText (first_index g)) then field_at dets rawText (first_index g)
        else None) \<and>
     (field_at dets rawText (first_index g) = Some raw \<and> trim raw \<noteq> []
        \<longrightarrow> titleText dets g = trim raw) \<and>
     (\<not> truthy (and_trim (field_at dets rawText (first_index g))) \<and>
      group_roomName g = Some name \<and> trim name \<noteq> []
        \<longrightarrow> titleText dets g = trim name)"
proof
  assume g: "g \<in> set (make_groups dets pgs)"
  note f = group_label_fields[OF g]
  have 1: "group_roomName g =
       (if truthy (field_at dets roomName (first_index g)) then field_at dets roomName (first_index g)
        else if truthy (field_at dets rawText (first_index g)) then field_at dets rawText (first_index g)
        else None)"
    using f by (simp add: js_or_def)
  have 2: "field_at dets rawText (first_index g) = Some raw \<and> trim raw \<noteq> []
        \<longrightarrow> titleText dets g = trim raw"
  proof
    assume a: "field_at dets rawText (first_index g) = Some raw \<and> trim raw \<noteq> []"
    then have "raw \<noteq> []" by (auto simp: trim_def)
    with a f show "titleText dets g = trim raw"
      by (simp add: titleText_def js_or_def and_trim_def truthy_def)
  qed
  have 3: "\<not> truthy (and_trim (field_at dets rawText (first_index g))) \<and>
      group_roomName g = Some name \<and> trim name \<noteq> []
        \<longrightarrow> titleText dets g = trim name"
  proof
    assume a: "\<not> truthy (and_trim (field_at dets rawText (first_index g))) \<and>
      group_roomName g = Some name \<and> trim name \<noteq> []"
    then have "name \<noteq> []" by (auto simp: trim_def)
    with a f show "titleText dets g = trim name"
      by (simp add: titleText_def js_or_def and_trim_def truthy_def)
  qed
  from 1 2 3 show "group_roomName g =
       (if truthy (field_at dets roomName (first_index g)) then field_at dets roomName (first_index g)
        else if truthy (field_at dets rawText (first_index g)) then field_at dets rawText (first_index g)
        else None) \<and>
     (field_at dets rawText (first_index g) = Some raw \<and> trim raw \<noteq> []
        \<longrightarrow> titleText dets g = trim raw) \<and>
     (\<not> truthy (and_trim (field_at dets rawText (first_index g))) \<and>
      group_roomName g = Some name \<and> trim name \<noteq> []
        \<longrightarrow> titleText dets g = trim name)"
    by blast
qed

theorem group_label_witness:
  "hd (make_groups [mk_detection plan_heading ''page-1.png''] [''page-1.png''])
     \<in> set (make_groups [mk_detection plan_heading ''page-1.png''] [''page-1.png'']) \<and>
   field_at [mk_detection plan_heading ''page-1.png''] rawText 0 = Some ''KITCHEN PLAN 1'' \<and>
   group_roomName (hd (make_groups [mk_detection plan_heading ''page-1.png''] [''page-1.png'']))
     = Some ''Kitchen Plan'' \<and>
   titleText [mk_detection plan_heading ''page-1.png'']
     (hd (make_groups [mk_detection plan_heading ''page-1.png''] [''page-1.png'']))
     = ''KITCHEN PLAN 1''"
proof -
  let ?D = "[mk_detection plan_heading ''page-1.png'']"
  let ?g = "hd (make_groups ?D [''page-1.png''])"
  have m: "?g \<in> set (make_groups ?D [''page-1.png''])" by code_simp
  have f: "first_index ?g = 0" by code_simp
  have r: "field_at ?D rawText 0 = Some ''KITCHEN PLAN 1'' \<and> trim ''KITCHEN PLAN 1'' \<noteq> []"
    by code_simp
  have n: "field_at ?D roomName 0 = Some ''Kitchen Plan''" by code_simp
  have t: "trim ''KITCHEN PLAN 1'' = ''KITCHEN PLAN 1''" by code_simp
  from group_label[of ?g ?D "[''page-1.png'']" "''KITCHEN PLAN 1''"] m f r n
  have "group_roomName ?g = Some ''Kitchen Plan'' \<and> titleText ?D ?g = trim ''KITCHEN PLAN 1''"
    by (simp add: truthy_def)
  with m r t show ?thesis by simp
qed

text \<open>
  C8, as stated, fails: a whitespace-only name normalizes to the empty string, and the
  empty string normalizes to null.
\<close>

theorem normalizer_idempotence_counterexample:
  "normalizeRoomName (Some ''   '') = Some [] \<and>
   normalizeRoomName (normalizeRoomName (Some ''   '')) = None \<and>
   normalizeRoomName (normalizeRoomName (Some ''   '')) \<noteq> normalizeRoomName (Some ''   '')"
  by code_simp

text \<open>
  C8, amended. A non-empty result of \<open>normalizeRoomName\<close> is canonical: normalizing it
  again yields it again. The empty result, which inputs without an alphanumeric
  character give, normalizes to null.
\<close>

theorem normalizer_idempotence:
  "normalizeRoomName x = Some y \<longrightarrow>
     (y \<noteq> [] \<longrightarrow> normalizeRoomName (Some y) = Some y) \<and>
     (y = [] \<longrightarrow> normalizeRoomName (Some y) = None)"
  using renormalize_nonempty[of x y] by (auto simp: normalizeRoomName_def)

theorem normalizer_idempotence_witness:
  "normalizeRoomName (Some ''Living  Room #2'') = Some ''living room 2'' \<and>
   normalizeRoomName (Some ''living room 2'') = Some ''living room 2''"
proof -
  have a: "normalizeRoomName (Some ''Living  Room #2'') = Some ''living room 2''"
    by code_simp
  have b: "''living room 2'' \<noteq> []" by simp
  from normalizer_idempotence[of "Some ''Living  Room #2''" "''living room 2''"] a b
  have "normalizeRoomName (Some ''living room 2'') = Some ''living room 2''" by blast
  with a show ?thesis by blast
qed

text \<open>
  C9. Let a run of \<open>pdfGenerate\<close> reach the merge step: the document was rendered, some
  page is left to process, the detection pass ended, the pool completed, and merging is
  not disabled. If \<open>outputMerge\<close> then throws, \<open>pdfGenerate\<close> returns the report all the
  same: its per-page results are those the pool left, its merged path is null, and the
  failure is recorded by a warning after the merge call. \<open>outputMerge\<close> does throw when
  the output directory holds no file, and when it does not exist.
\<close>

theorem merge_failure_not_fatal:
  "(truthy pdfPath \<and>
    rendered en pdfPath opts = Inr pageImages \<and>
    \<not> effective_skipPages opts \<ge> int (length pageImages) \<and>
    pgs = js_slice pageImages (effective_skipPages opts) \<and> pgs \<noteq> [] \<and>
    detect_pages en (opt_continueOnError opts) pgs []
      [Render (path_resolve en (the pdfPath)) (pagesDir_of en opts)] = (Inr dets, tr) \<and>
    pool_of en opts dets pgs sched tr = (Fulfilled, st) \<and>
    opt_mergeOutput opts \<noteq> Some False \<and>
    outputMerge en (Some (outputDir_of en opts)) (Some (mergedPath_of en opts)) = Inl e
    \<longrightarrow>
      pdfGenerate en pdfPath opts sched =
        (Returned
           \<lparr>r_pagesDir = pagesDir_of en opts,
            r_outputDir = outputDir_of en opts,
            r_pageImages = pageImages,
            r_processedPages = processedPages st,
            r_skipPages = Some (effective_skipPages opts),
            r_concurrency = Some (min (effective_concurrency opts) (length (make_groups dets pgs))),
            r_groups = Some (make_groups dets pgs),
            r_roomDetections = Some dets,
            r_mergedPdfPath = None\<rparr>,
         calls st @ [Merge (outputDir_of en opts) (mergedPath_of en opts),
                     Warn ''[PDFGenerate] Failed to merge output images:'' (error_text e)])) \<and>
   (fs_existsSync en (resolve_or en d ''generated'') \<and>
    fs_readdir en (resolve_or en d ''generated'') = Inr []
    \<longrightarrow>
      outputMerge en d p =
        Inl (JsError (''No image files found in output directory: '' @ resolve_or en d ''generated''))) \<and>
   (\<not> fs_existsSync en (resolve_or en d ''generated'')
    \<longrightarrow>
      outputMerge en d p =
        Inl (JsError (''Output directory does not exist: '' @ resolve_or en d ''generated'')))"
proof (intro conjI impI)
  assume a: "truthy pdfPath \<and>
    rendered en pdfPath opts = Inr pageImages \<and>
    \<not> effective_skipPages opts \<ge> int (length pageImages) \<and>
    pgs = js_slice pageImages (effective_skipPages opts) \<and> pgs \<noteq> [] \<and>
    detect_pages en (opt_continueOnError opts) pgs []
      [Render (path_resolve en (the pdfPath)) (pagesDir_of en opts)] = (Inr dets, tr) \<and>
    pool_of en opts dets pgs sched tr = (Fulfilled, st) \<and>
    opt_mergeOutput opts \<noteq> Some False \<and>
    outputMerge en (Some (outputDir_of en opts)) (Some (mergedPath_of en opts)) = Inl e"
  then have t: "truthy pdfPath"
    and r: "pdfToPngs en (path_resolve en (the pdfPath)) (resolve_or en (opt_pagesDir opts) ''pdf-pages'')
              (case opt_skipConversionPages opts of Some n \<Rightarrow> n | None \<Rightarrow> 4) = Inr pageImages"
    and s: "\<not> effective_skipPages opts \<ge> int (length pageImages)"
    and sl: "js_slice pageImages (effective_skipPages opts) \<noteq> []"
    and d: "detect_pages en (opt_continueOnError opts) (js_slice pageImages (effective_skipPages opts)) []
              [Render (path_resolve en (the pdfPath)) (resolve_or en (opt_pagesDir opts) ''pdf-pages'')]
            = (Inr dets, tr)"
    and p: "pool_of en opts dets (js_slice pageImages (effective_skipPages opts)) sched tr = (Fulfilled, st)"
    and m: "opt_mergeOutput opts \<noteq> Some False"
    and o: "outputMerge en (Some (outputDir_of en opts))
              (Some (if truthy (opt_mergedOutputPath opts) then the (opt_mergedOutputPath opts)
                     else cwd_resolve en ''merged-output.pdf'')) = Inl e"
    and pg: "pgs = js_slice pageImages (effective_skipPages opts)"
    by (auto simp: rendered_def pagesDir_of_def mergedPath_of_def)
  have "pdfGenerate en pdfPath opts sched =
          process_pages en opts sched (resolve_or en (opt_pagesDir opts) ''pdf-pages'')
            (resolve_or en (opt_outputDir opts) ''generated'') pageImages
            (js_slice pageImages (effective_skipPages opts)) dets tr"
    using pdfGenerate_processing[OF t r s sl d] .
  then show "pdfGenerate en pdfPath opts sched =
        (Returned
           \<lparr>r_pagesDir = pagesDir_of en opts,
            r_outputDir = outputDir_of en opts,
            r_pageImages = pageImages,
            r_processedPages = processedPages st,
            r_skipPages = Some (effective_skipPages opts),
            r_concurrency = Some (min (effective_concurrency opts) (length (make_groups dets pgs))),
            r_groups = Some (make_groups dets pgs),
            r_roomDetections = Some dets,
            r_mergedPdfPath = None\<rparr>,
         calls st @ [Merge (outputDir_of en opts) (mergedPath_of en opts),
                     Warn ''[PDFGenerate] Failed to merge output images:'' (error_text e)])"
    using p pg merge_step_failure[OF m o]
    by (simp add: process_pages_pool pagesDir_of_def outputDir_of_def mergedPath_of_def)
next
  assume "fs_existsSync en (resolve_or en d ''generated'') \<and>
    fs_readdir en (resolve_or en d ''generated'') = Inr []"
  then show "outputMerge en d p =
        Inl (JsError (''No image files found in output directory: '' @ resolve_or en d ''generated''))"
    using outputMerge_empty_directory by blast
next
  assume "\<not> fs_existsSync en (resolve_or en d ''generated'')"
  then show "outputMerge en d p =
        Inl (JsError (''Output directory does not exist: '' @ resolve_or en d ''generated''))"
    by (rule outputMerge_missing_directory)
qed

theorem merge_failure_not_fatal_witness:
  "truthy (Some ''plan.pdf'') \<and>
   rendered scenario_env (Some ''plan.pdf'') scenario_options = Inr scenario_pages \<and>
   fst (pool_of scenario_env scenario_options scenario_detections scenario_pages scenario_schedule
          (Render ''plan.pdf'' ''/work/pdf-pages'' # map Identify scenario_pages)) = Fulfilled \<and>
   outputMerge scenario_env (Some ''/work/generated'') (Some ''/work/merged-output.pdf'')
     = Inl (JsError ''No image files found in output directory: /work/generated'') \<and>
   (\<exists>r tr. pdfGenerate scenario_env (Some ''plan.pdf'') scenario_options scenario_schedule = (Returned r, tr) \<and>
      r_mergedPdfPath r = None \<and>
      map (\<lambda>slot. slot = None) (r_processedPages r) = [False, False, False, False, False] \<and>
      last tr = Warn ''[PDFGenerate] Failed to merge output images:''
                  ''No image files found in output directory: /work/generated'')"
proof -
  let ?en = scenario_env and ?o = scenario_options
  let ?tr = "Render ''plan.pdf'' ''/work/pdf-pages'' # map Identify scenario_pages"
  let ?run = "pool_of ?en ?o scenario_detections scenario_pages scenario_schedule ?tr"
  let ?e = "JsError ''No image files found in output directory: /work/generated''"
  have paths: "pagesDir_of ?en ?o = ''/work/pdf-pages'' \<and> outputDir_of ?en ?o = ''/work/generated'' \<and>
               mergedPath_of ?en ?o = ''/work/merged-output.pdf'' \<and>
               path_resolve ?en (the (Some ''plan.pdf'')) = ''plan.pdf''"
    by code_simp
  have t: "truthy (Some ''plan.pdf'')" by (simp add: truthy_def)
  have r: "rendered ?en (Some ''plan.pdf'') ?o = Inr scenario_pages"
    by (simp add: rendered_def scenario_env_def)
  have s: "\<not> effective_skipPages ?o \<ge> int (length scenario_pages)"
    by (simp add: effective_skipPages_def Number_isInteger_def scenario_options_def scenario_pages_def)
  have sl: "scenario_pages = js_slice scenario_pages (effective_skipPages ?o) \<and> scenario_pages \<noteq> []"
    by (simp add: js_slice_def effective_skipPages_def Number_isInteger_def scenario_options_def scenario_pages_def)
  have d: "detect_pages ?en (opt_continueOnError ?o) scenario_pages []
             [Render (path_resolve ?en (the (Some ''plan.pdf''))) (pagesDir_of ?en ?o)]
           = (Inr scenario_detections, ?tr)"
    by code_simp
  have f: "fst ?run = Fulfilled" by code_simp
  then have p: "?run = (Fulfilled, snd ?run)" by (simp add: prod_eq_iff)
  have m: "opt_mergeOutput ?o \<noteq> Some False" by (simp add: scenario_options_def)
  have o: "outputMerge ?en (Some ''/work/generated'') (Some ''/work/merged-output.pdf'') = Inl ?e"
    by code_simp
  have pp: "map (\<lambda>slot. slot = None) (processedPages (snd ?run)) = [False, False, False, False, False]"
    by code_simp
  have et: "error_text ?e = ''No image files found in output directory: /work/generated''"
    by code_simp
  from merge_failure_not_fatal[where pdfPath = "Some ''plan.pdf''" and en = ?en and opts = ?o
         and pageImages = scenario_pages and pgs = scenario_pages and dets = scenario_detections
         and tr = ?tr and sched = scenario_schedule and st = "snd ?run" and e = ?e]
       t r s sl d p m o paths
  have "\<exists>r tr. pdfGenerate ?en (Some ''plan.pdf'') ?o scenario_schedule = (Returned r, tr) \<and>
          r_mergedPdfPath r = None \<and> r_processedPages r = processedPages (snd ?run) \<and>
          last tr = Warn ''[PDFGenerate] Failed to merge output images:'' (error_text ?e)"
    by simp
  then show ?thesis using t r f o pp et by auto
qed




end
